theory Spec2Isabelle
  imports Complex_Main "HOL-Library.Monad_Syntax"
begin

section \<open>Numbers and small utilities\<close>

text \<open>
  JavaScript numbers are modelled as mathematical reals: the comparisons, clamps and
  interpolation formulas of the program are kept exactly as written, rounding is not
  modelled. An indexed read \<open>a[i].f\<close> of the source throws a TypeError when \<open>a[i]\<close>
  is \<open>undefined\<close>; here the read returns \<open>None\<close> and the caller stops with \<open>None\<close>.
\<close>

definition nth_opt :: "'a list \<Rightarrow> nat \<Rightarrow> 'a option" where
  "nth_opt xs i = (if i < length xs then Some (xs ! i) else None)"

text \<open>\<open>function lerp(a, b, t) { return a + (b - a) * t; }\<close>\<close>

definition lerp :: "real \<Rightarrow> real \<Rightarrow> real \<Rightarrow> real" where
  "lerp a b t = a + (b - a) * t"

text \<open>\<open>easeInOutCubic(t) = t < 0.5 ? 4*t*t*t : 1 - Math.pow(-2*t + 2, 3) / 2\<close>\<close>

definition easeInOutCubic :: "real \<Rightarrow> real" where
  "easeInOutCubic t = (if t < 0.5 then 4 * t * t * t else 1 - (- 2 * t + 2) ^ 3 / 2)"

section \<open>Hand tracking module: the gesture classifier\<close>

record landmark =
  lm_x :: real
  lm_y :: real

datatype gesture = Gnone | Gfist | Gopen | Gok

text \<open>
  The loop of \<open>getFingersExtended\<close> over \<open>fingerTips = [8, 12, 16, 20]\<close> and
  \<open>fingerPips = [6, 10, 14, 18]\<close>, pushing \<open>tipY < pipY\<close> for each finger.
\<close>

fun extendedLoop :: "landmark list \<Rightarrow> nat list \<Rightarrow> nat list \<Rightarrow> bool list \<Rightarrow> bool list option" where
  "extendedLoop lms (tip # tips) (pip # pips) extended =
     do {
       t \<leftarrow> nth_opt lms tip;
       p \<leftarrow> nth_opt lms pip;
       extendedLoop lms tips pips (extended @ [lm_y t < lm_y p])
     }"
| "extendedLoop lms _ _ extended = Some extended"

text \<open>The thumb flag is \<open>landmarks[4].x < landmarks[3].x\<close>; the four others follow.\<close>

definition getFingersExtended :: "landmark list \<Rightarrow> bool list option" where
  "getFingersExtended lms =
     do {
       l4 \<leftarrow> nth_opt lms 4;
       l3 \<leftarrow> nth_opt lms 3;
       extendedLoop lms [8, 12, 16, 20] [6, 10, 14, 18] [lm_x l4 < lm_x l3]
     }"

text \<open>
  \<open>fingersExtended[i]\<close>: an index beyond the array reads \<open>undefined\<close>, which is falsy.
\<close>

definition flag :: "bool list \<Rightarrow> nat \<Rightarrow> bool" where
  "flag fs i = (i < length fs \<and> fs ! i)"

text \<open>
  \<open>Math.sqrt(Math.pow(thumbTip.x - indexTip.x, 2) + Math.pow(thumbTip.y - indexTip.y, 2))\<close>
\<close>

definition tipDistance :: "landmark \<Rightarrow> landmark \<Rightarrow> real" where
  "tipDistance thumbTip indexTip =
     sqrt ((lm_x thumbTip - lm_x indexTip) ^ 2 + (lm_y thumbTip - lm_y indexTip) ^ 2)"

definition isOKGesture :: "landmark list \<Rightarrow> bool list \<Rightarrow> bool option" where
  "isOKGesture lms fingersExtended =
     do {
       thumbTip \<leftarrow> nth_opt lms 4;
       indexTip \<leftarrow> nth_opt lms 8;
       let distance = tipDistance thumbTip indexTip;
       let isTouching = distance < 0.08;
       let otherFingersExtended =
             (flag fingersExtended 2 \<and> flag fingersExtended 3 \<and> flag fingersExtended 4);
       Some (isTouching \<and> otherFingersExtended)
     }"

text \<open>\<open>fingersExtended.filter(f => f).length\<close>\<close>

definition extendedCount :: "bool list \<Rightarrow> nat" where
  "extendedCount fingersExtended = length (filter (\<lambda>f. f) fingersExtended)"

definition detectGesture :: "landmark list \<Rightarrow> gesture option" where
  "detectGesture lms =
     do {
       fingersExtended \<leftarrow> getFingersExtended lms;
       ok \<leftarrow> isOKGesture lms fingersExtended;
       if ok then Some Gok
       else if extendedCount fingersExtended \<le> 1 then Some Gfist
       else if extendedCount fingersExtended \<ge> 4 then Some Gopen
       else Some Gnone
     }"

section \<open>Hand tracking module: the gesture smoother\<close>

text \<open>
  The fields of \<open>HandTracker\<close> that \<open>updateGesture\<close> reads and writes.
  \<open>onGestureChange\<close> records whether a callback is registered (the constructor sets it
  to \<open>null\<close>, \<open>setupHandTracking\<close> registers \<open>handleGestureChange\<close>); the event handed
  to the callback is the second component of the result of \<open>updateGesture\<close>.
\<close>

record tracker =
  currentGesture :: gesture
  gestureHistory :: "gesture list"
  onGestureChange :: bool

definition historySize :: nat where
  "historySize = 5"

text \<open>\<open>gestureHistory.push(gesture); if (length > historySize) gestureHistory.shift();\<close>\<close>

definition pushHistory :: "gesture list \<Rightarrow> gesture \<Rightarrow> gesture list" where
  "pushHistory history g =
     (let pushed = history @ [g]
      in if historySize < length pushed then tl pushed else pushed)"

text \<open>
  \<open>gestureCounts[g] = (gestureCounts[g] || 0) + 1\<close> on an object whose keys are the
  labels: \<open>Object.entries\<close> lists string keys in the order of their first insertion, so
  the object is an association list that keeps a key's place when its count grows.
\<close>

definition countStep :: "('a \<times> nat) list \<Rightarrow> 'a \<Rightarrow> ('a \<times> nat) list" where
  "countStep gestureCounts g =
     (case map_of gestureCounts g of
        None \<Rightarrow> gestureCounts @ [(g, 0 + 1)]
      | Some c \<Rightarrow> map (\<lambda>(k, v). if k = g then (k, c + 1) else (k, v)) gestureCounts)"

text \<open>\<open>if (count > maxCount) { maxCount = count; smoothedGesture = g; }\<close>\<close>

definition pickStep :: "nat \<times> 'a \<Rightarrow> 'a \<times> nat \<Rightarrow> nat \<times> 'a" where
  "pickStep acc entry =
     (case acc of (maxCount, smoothedGesture) \<Rightarrow>
        case entry of (g, count) \<Rightarrow>
          if maxCount < count then (count, g) else (maxCount, smoothedGesture))"

definition smooth :: "gesture list \<Rightarrow> gesture" where
  "smooth history = snd (foldl pickStep (0, Gnone) (foldl countStep [] history))"

definition updateGesture :: "tracker \<Rightarrow> gesture \<Rightarrow> tracker \<times> gesture option" where
  "updateGesture t g =
     (let history = pushHistory (gestureHistory t) g;
          smoothedGesture = smooth history;
          t1 = t\<lparr>gestureHistory := history\<rparr>
      in if smoothedGesture \<noteq> currentGesture t
         then (t1\<lparr>currentGesture := smoothedGesture\<rparr>,
               if onGestureChange t then Some smoothedGesture else None)
         else (t1, None))"

text \<open>The tracker as constructed, and once the application has registered its handler.\<close>

definition newTracker :: tracker where
  "newTracker = \<lparr>currentGesture = Gnone, gestureHistory = [], onGestureChange = False\<rparr>"

definition listeningTracker :: tracker where
  "listeningTracker = newTracker\<lparr>onGestureChange := True\<rparr>"

text \<open>
  Feeding a sequence of raw per-frame labels: the final tracker and, per label, the
  event emitted (or none).
\<close>

fun feed :: "tracker \<Rightarrow> gesture list \<Rightarrow> tracker \<times> gesture option list" where
  "feed t [] = (t, [])"
| "feed t (g # gs) =
     (case updateGesture t g of (t1, ev) \<Rightarrow>
        case feed t1 gs of (t2, evs) \<Rightarrow> (t2, ev # evs))"

section \<open>Main application: configuration and state\<close>

text \<open>\<open>CONFIG.transitionSpeed\<close>, \<open>CONFIG.autoRotate\<close>, \<open>CONFIG.autoRotateSpeed\<close>.\<close>

definition transitionSpeed :: real where
  "transitionSpeed = 0.06"

definition autoRotate :: bool where
  "autoRotate = True"

definition autoRotateSpeed :: real where
  "autoRotateSpeed = 0.002"

definition SAMPLE_IMAGES :: "string list" where
  "SAMPLE_IMAGES =
     [''../hinh/z7326700462084_d02bb6716052953273e0c6072e069a32.jpg'',
      ''../hinh/z7326700472056_30571a02816fe4d5e9029c2318ca065c.jpg'',
      ''../hinh/z7326700472393_39b8d88b7197a04534eb89549af0c5ac.jpg'',
      ''../hinh/z7326700484819_1e647e5620d79d617e917fa17f47dbf2.jpg'',
      ''../hinh/z7326728321492_c132391ea28a748af058fb729d9f69c4.jpg'',
      ''../hinh/z7326728333619_6346659400153bb8dc6273de05342604.jpg'']"

datatype display_state = Tree | Exploded | Zoomed

record vec3 =
  vx :: real
  vy :: real
  vz :: real

text \<open>
  An image sprite: \<open>userData\<close> (url, index, originalScale, baseAngle, isSelected),
  \<open>material.opacity\<close>, \<open>position\<close> and the common x/y \<open>scale\<close>. \<open>baseAngle\<close> is
  optional because \<open>updateImageVisibility\<close> tests it against \<open>undefined\<close>.
\<close>

record sprite =
  url :: string
  index :: nat
  originalScale :: real
  baseAngle :: "real option"
  isSelected :: bool
  opacity :: real
  position :: vec3
  scale :: real

text \<open>
  The global variables of the application. \<open>zoomedSprite\<close> refers to a sprite by its
  place in \<open>imageSprites\<close> (the array only grows). \<open>positions\<close> is the flat position
  buffer of the particle geometry. The DOM (overlay, gesture label) and the ornaments,
  lights and star, which no state variable depends on, are left out.
\<close>

record scene =
  currentState :: display_state
  previousState :: display_state
  morphProgress :: real
  treeRotation :: real
  targetRotation :: real
  selectedImageIndex :: int
  zoomedSprite :: "nat option"
  imageSprites :: "sprite list"
  time :: real
  treePositions :: "vec3 list"
  originalPositions :: "vec3 list"
  currentPositions :: "vec3 list"
  positions :: "real list"

text \<open>\<open>e.key.toLowerCase()\<close>, as far as the handlers distinguish keys.\<close>

datatype key = KeyF | KeyO | KeyZ | ArrowLeft | ArrowRight | OtherKey

text \<open>
  What can happen to the scene: a gesture-change event from the tracker, a key event,
  a render tick (with the hand's x position when a hand is tracked), a click on the
  close button, a click on the overlay (with whether the overlay itself was the
  target), and the load callback of the image at an index of \<open>SAMPLE_IMAGES\<close>.
\<close>

datatype event =
    GestureChange gesture
  | KeyDown key
  | KeyUp key
  | Tick "real option"
  | CloseZoomClick
  | OverlayClick bool
  | ImageLoaded nat

text \<open>
  The state after \<open>setupParticles\<close>: \<open>gen\<close> lists, per particle, the tree position and
  the exploded position that the setup loop drew (both involve \<open>Math.random\<close>).
\<close>

definition initialScene :: "(vec3 \<times> vec3) list \<Rightarrow> scene" where
  "initialScene gen =
     \<lparr>currentState = Tree, previousState = Tree, morphProgress = 1,
      treeRotation = 0, targetRotation = 0, selectedImageIndex = 0,
      zoomedSprite = None, imageSprites = [], time = 0,
      treePositions = map fst gen, originalPositions = map snd gen,
      currentPositions = map fst gen,
      positions = concat (map (\<lambda>p. [vx (fst p), vy (fst p), vz (fst p)]) gen)\<rparr>"

text \<open>The texture-load callback of \<open>setupImages\<close> for the image at index \<open>i\<close>.\<close>

definition imageLoaded :: "nat \<Rightarrow> scene \<Rightarrow> scene" where
  "imageLoaded i s =
     (if i < length SAMPLE_IMAGES then
        let imageCount = length SAMPLE_IMAGES;
            hiddenRadius = 0.5;
            angle = (real i / real imageCount) * pi * 2;
            treePos = \<lparr>vx = cos angle * hiddenRadius, vy = 0, vz = sin angle * hiddenRadius\<rparr>;
            sp = \<lparr>url = SAMPLE_IMAGES ! i, index = i, originalScale = 2,
                  baseAngle = Some angle, isSelected = False, opacity = 0,
                  position = treePos, scale = 2\<rparr>
        in s\<lparr>imageSprites := imageSprites s @ [sp]\<rparr>
      else s)"

section \<open>Main application: gestures, keys and clicks\<close>

definition unzoomImage :: "scene \<Rightarrow> scene" where
  "unzoomImage s = s\<lparr>zoomedSprite := None\<rparr>"

text \<open>
  \<open>imageSprites.forEach(sprite => { if (sprite.userData.isSelected) bestImage = sprite; })\<close>
\<close>

fun selectedLoop :: "nat \<Rightarrow> sprite list \<Rightarrow> nat option \<Rightarrow> nat option" where
  "selectedLoop i [] bestImage = bestImage"
| "selectedLoop i (sp # sps) bestImage =
     selectedLoop (i + 1) sps (if isSelected sp then Some i else bestImage)"

definition zoomToNearestImage :: "scene \<Rightarrow> scene" where
  "zoomToNearestImage s =
     (if length (imageSprites s) = 0 then s
      else if currentState s = Zoomed then s
      else
        let found = selectedLoop 0 (imageSprites s) None;
            bestImage =
              (if found = None \<and> 0 \<le> selectedImageIndex s
                  \<and> selectedImageIndex s < int (length (imageSprites s))
               then Some (nat (selectedImageIndex s)) else found)
        in case bestImage of
             None \<Rightarrow> s
           | Some b \<Rightarrow>
               if 0.3 < opacity (imageSprites s ! b)
               then s\<lparr>previousState := currentState s, currentState := Zoomed,
                      zoomedSprite := Some b\<rparr>
               else s)"

definition zoomSelectedImage :: "scene \<Rightarrow> scene" where
  "zoomSelectedImage s =
     (if length (imageSprites s) = 0 then s
      else if currentState s = Zoomed then s
      else if selectedImageIndex s < 0
              \<or> int (length (imageSprites s)) \<le> selectedImageIndex s then s
      else if opacity (imageSprites s ! nat (selectedImageIndex s)) < 0.3 then s
      else s\<lparr>previousState := currentState s, currentState := Zoomed,
             zoomedSprite := Some (nat (selectedImageIndex s))\<rparr>)"

fun handleGestureChange :: "gesture \<Rightarrow> scene \<Rightarrow> scene" where
  "handleGestureChange Gfist s =
     (let s1 = (if currentState s = Zoomed then unzoomImage s else s)
      in s1\<lparr>currentState := Tree\<rparr>)"
| "handleGestureChange Gopen s =
     (let s1 = (if currentState s = Zoomed then unzoomImage s else s)
      in s1\<lparr>currentState := Exploded, previousState := Exploded\<rparr>)"
| "handleGestureChange Gok s =
     (if currentState s = Exploded \<or> previousState s = Exploded
      then zoomToNearestImage s else s)"
| "handleGestureChange Gnone s =
     (if currentState s = Zoomed
      then (unzoomImage s)\<lparr>currentState := previousState s\<rparr>
      else s)"

text \<open>The \<open>keydown\<close> and \<open>keyup\<close> listeners of \<open>setupKeyboardControls\<close>.\<close>

fun keydown :: "key \<Rightarrow> scene \<Rightarrow> scene" where
  "keydown KeyF s =
     (let s1 = (if currentState s = Zoomed then unzoomImage s else s)
      in s1\<lparr>currentState := Tree\<rparr>)"
| "keydown KeyO s =
     (let s1 = (if currentState s = Zoomed then unzoomImage s else s)
      in s1\<lparr>currentState := Exploded, previousState := Exploded\<rparr>)"
| "keydown KeyZ s =
     (if currentState s = Exploded \<or> previousState s = Exploded
      then zoomSelectedImage s else s)"
| "keydown ArrowLeft s =
     (if currentState s = Exploded
      then s\<lparr>selectedImageIndex := max 0 (selectedImageIndex s - 1)\<rparr>
      else s\<lparr>targetRotation := targetRotation s - 0.5\<rparr>)"
| "keydown ArrowRight s =
     (if currentState s = Exploded
      then s\<lparr>selectedImageIndex :=
                min (int (length SAMPLE_IMAGES) - 1) (selectedImageIndex s + 1)\<rparr>
      else s\<lparr>targetRotation := targetRotation s + 0.5\<rparr>)"
| "keydown OtherKey s = s"

definition keyup :: "key \<Rightarrow> scene \<Rightarrow> scene" where
  "keyup k s =
     (if k = KeyZ \<and> currentState s = Zoomed
      then (unzoomImage s)\<lparr>currentState := previousState s\<rparr>
      else s)"

text \<open>
  The two click listeners of the zoom overlay: the close button, and the overlay
  itself when \<open>e.target\<close> is the overlay element.
\<close>

definition closeZoomClick :: "scene \<Rightarrow> scene" where
  "closeZoomClick s = s\<lparr>currentState := Exploded\<rparr>"

definition overlayClick :: "bool \<Rightarrow> scene \<Rightarrow> scene" where
  "overlayClick targetIsOverlay s =
     (if targetIsOverlay then s\<lparr>currentState := Exploded\<rparr> else s)"

section \<open>Main application: the render tick\<close>

text \<open>
  The loop of \<open>updateParticlePositions\<close> from index \<open>i\<close>. Reading \<open>tree.x\<close> or
  \<open>exploded.x\<close> beyond the arrays throws; a write beyond the typed position buffer is
  ignored, as \<open>list_update\<close> does.
\<close>

function particleLoop ::
  "real \<Rightarrow> vec3 list \<Rightarrow> vec3 list \<Rightarrow> nat \<Rightarrow> vec3 list \<Rightarrow> real list
     \<Rightarrow> (vec3 list \<times> real list) option" where
  "particleLoop mp trees explodeds i current buf =
     (if i < length current then
        (case nth_opt trees i of
           None \<Rightarrow> None
         | Some tree \<Rightarrow>
            (case nth_opt explodeds i of
               None \<Rightarrow> None
             | Some exploded \<Rightarrow>
                 let t = easeInOutCubic mp;
                     p = \<lparr>vx = lerp (vx exploded) (vx tree) t,
                          vy = lerp (vy exploded) (vy tree) t,
                          vz = lerp (vz exploded) (vz tree) t\<rparr>
                 in particleLoop mp trees explodeds (i + 1) (current[i := p])
                      (buf[i * 3 := vx p, i * 3 + 1 := vy p, i * 3 + 2 := vz p])))
      else Some (current, buf))"
  by pat_completeness auto
termination
  by (relation "measure (\<lambda>(mp, trees, explodeds, i, current, buf). length current - i)") auto

declare particleLoop.simps [simp del]

definition updateParticlePositions :: "scene \<Rightarrow> scene option" where
  "updateParticlePositions s =
     (case particleLoop (morphProgress s) (treePositions s) (originalPositions s) 0
             (currentPositions s) (positions s) of
        None \<Rightarrow> None
      | Some (current, buf) \<Rightarrow> Some (s\<lparr>currentPositions := current, positions := buf\<rparr>))"

text \<open>\<open>z > maxZ\<close> with \<open>maxZ\<close> starting at \<open>-Infinity\<close>, which is \<open>None\<close> here.\<close>

definition gtMaxZ :: "real \<Rightarrow> real option \<Rightarrow> bool" where
  "gtMaxZ z maxZ = (case maxZ of None \<Rightarrow> True | Some m \<Rightarrow> m < z)"

text \<open>
  First pass of \<open>updateImageVisibility\<close>: each sprite is placed on its orbit, and the
  pair \<open>(maxZ, frontImageIndex)\<close> follows the camera-facing comparison
  \<open>z > maxZ && currentState === 'exploded'\<close>.
\<close>

fun frontLoop ::
  "display_state \<Rightarrow> real \<Rightarrow> real \<Rightarrow> nat \<Rightarrow> sprite list \<Rightarrow> real option \<times> nat
     \<Rightarrow> sprite list \<times> (real option \<times> nat)" where
  "frontLoop st rot explodeProgress i [] acc = ([], acc)"
| "frontLoop st rot explodeProgress i (sp # sps) (maxZ, frontImageIndex) =
     (case baseAngle sp of
        None \<Rightarrow>
          (case frontLoop st rot explodeProgress (i + 1) sps (maxZ, frontImageIndex) of
             (sps', acc') \<Rightarrow> (sp # sps', acc'))
      | Some angle \<Rightarrow>
          let currentAngle = angle + rot;
              t = easeInOutCubic explodeProgress;
              currentRadius = lerp 0.5 8 t;
              x = cos currentAngle * currentRadius;
              z = sin currentAngle * currentRadius;
              sp1 = sp\<lparr>position := \<lparr>vx = x, vy = 0, vz = z\<rparr>\<rparr>;
              acc1 = (if gtMaxZ z maxZ \<and> st = Exploded then (Some z, i)
                      else (maxZ, frontImageIndex))
          in case frontLoop st rot explodeProgress (i + 1) sps acc1 of
               (sps', acc') \<Rightarrow> (sp1 # sps', acc'))"

text \<open>Second pass: opacity, scale and the selection flag of each sprite.\<close>

fun opacityLoop ::
  "display_state \<Rightarrow> real \<Rightarrow> int \<Rightarrow> nat \<Rightarrow> sprite list \<Rightarrow> sprite list" where
  "opacityLoop st explodeProgress sel i [] = []"
| "opacityLoop st explodeProgress sel i (sp # sps) =
     (case baseAngle sp of
        None \<Rightarrow> sp
      | Some angle \<Rightarrow>
          let targetOpacity = (if 0.5 < explodeProgress then explodeProgress else 0);
              isFront = (int i = sel \<and> st = Exploded);
              baseScale = originalScale sp * (0.5 + explodeProgress * 0.5);
              frontBoost = (if isFront then 1.5 else 1.0);
              targetScale = baseScale * frontBoost;
              newScale = lerp (scale sp) targetScale 0.15
          in sp\<lparr>opacity := lerp (opacity sp) targetOpacity 0.1,
                scale := newScale, isSelected := isFront\<rparr>)
     # opacityLoop st explodeProgress sel (i + 1) sps"

definition updateImageVisibility :: "scene \<Rightarrow> scene" where
  "updateImageVisibility s =
     (let explodeProgress = 1 - morphProgress s
      in case frontLoop (currentState s) (treeRotation s) explodeProgress 0
                (imageSprites s) (None, 0) of
           (sprites1, (maxZ, frontImageIndex)) \<Rightarrow>
             let sel = (if currentState s = Exploded then int frontImageIndex
                        else selectedImageIndex s)
             in s\<lparr>selectedImageIndex := sel,
                  imageSprites := opacityLoop (currentState s) explodeProgress sel 0 sprites1\<rparr>)"

text \<open>
  \<open>updateRotation\<close>: \<open>hand\<close> is the x coordinate of \<open>handTracker.getPosition()\<close> when a
  tracker exists, is tracking and has landmarks.
\<close>

definition updateRotation :: "real option \<Rightarrow> scene \<Rightarrow> scene" where
  "updateRotation hand s =
     (let target =
            (case hand of
               Some handX \<Rightarrow> targetRotation s + (handX - 0.5) * 0.15
             | None \<Rightarrow> if autoRotate then targetRotation s + autoRotateSpeed
                        else targetRotation s)
      in s\<lparr>targetRotation := target, treeRotation := lerp (treeRotation s) target 0.1\<rparr>)"

text \<open>
  One call of \<open>animate\<close>: the clock, the morph progress, the particles, the image
  sprites, the rotation.
\<close>

definition animate :: "real option \<Rightarrow> scene \<Rightarrow> scene option" where
  "animate hand s =
     (let s1 = s\<lparr>time := time s + 0.016\<rparr>;
          s2 = (if currentState s1 = Tree
                then s1\<lparr>morphProgress := min 1 (morphProgress s1 + transitionSpeed)\<rparr>
                else if currentState s1 = Exploded
                then s1\<lparr>morphProgress := max 0 (morphProgress s1 - transitionSpeed)\<rparr>
                else s1)
      in case updateParticlePositions s2 of
           None \<Rightarrow> None
         | Some s3 \<Rightarrow> Some (updateRotation hand (updateImageVisibility s3)))"

fun step :: "event \<Rightarrow> scene \<Rightarrow> scene option" where
  "step (GestureChange g) s = Some (handleGestureChange g s)"
| "step (KeyDown k) s = Some (keydown k s)"
| "step (KeyUp k) s = Some (keyup k s)"
| "step (Tick hand) s = animate hand s"
| "step CloseZoomClick s = Some (closeZoomClick s)"
| "step (OverlayClick b) s = Some (overlayClick b s)"
| "step (ImageLoaded i) s = Some (imageLoaded i s)"

text \<open>A run of events; it stops with \<open>None\<close> at the first handler that throws.\<close>

fun run :: "scene \<Rightarrow> event list \<Rightarrow> scene option" where
  "run s [] = Some s"
| "run s (e # es) = (case step e s of None \<Rightarrow> None | Some s1 \<Rightarrow> run s1 es)"

section \<open>Notions used in the statements\<close>

text \<open>The place of the first occurrence of a label in a history.\<close>

definition firstIndex :: "'a list \<Rightarrow> 'a \<Rightarrow> nat" where
  "firstIndex xs a = length (takeWhile (\<lambda>b. b \<noteq> a) xs)"

text \<open>The distinct labels of a history in the order of their first occurrence.\<close>

fun firsts :: "'a list \<Rightarrow> 'a list" where
  "firsts [] = []"
| "firsts (x # xs) = x # filter (\<lambda>y. y \<noteq> x) (firsts xs)"

definition isMajority :: "'a list \<Rightarrow> 'a \<Rightarrow> bool" where
  "isMajority h a = (\<forall>b \<in> set h. count_list h b \<le> count_list h a)"

text \<open>The last \<open>n\<close> elements of a list.\<close>

definition lastN :: "nat \<Rightarrow> 'a list \<Rightarrow> 'a list" where
  "lastN n xs = drop (length xs - n) xs"

text \<open>
  The label last emitted in a list of per-frame events; \<open>d\<close> when none was emitted.
\<close>

fun lastEmitted :: "gesture \<Rightarrow> gesture option list \<Rightarrow> gesture" where
  "lastEmitted d [] = d"
| "lastEmitted d (None # evs) = lastEmitted d evs"
| "lastEmitted d (Some g # evs) = lastEmitted g evs"

text \<open>The eased blend of a particle's two endpoints.\<close>

definition blend :: "real \<Rightarrow> vec3 \<Rightarrow> vec3 \<Rightarrow> vec3" where
  "blend mp exploded tree =
     \<lparr>vx = lerp (vx exploded) (vx tree) (easeInOutCubic mp),
      vy = lerp (vy exploded) (vy tree) (easeInOutCubic mp),
      vz = lerp (vz exploded) (vz tree) (easeInOutCubic mp)\<rparr>"

text \<open>The particle loop reads no endpoint beyond its array.\<close>

definition particlesOk :: "scene \<Rightarrow> bool" where
  "particlesOk s =
     (length (currentPositions s) \<le> length (treePositions s)
      \<and> length (currentPositions s) \<le> length (originalPositions s))"

text \<open>The endpoints and the sizes of the particle arrays are those of the setup.\<close>

definition setupInv :: "(vec3 \<times> vec3) list \<Rightarrow> scene \<Rightarrow> bool" where
  "setupInv gen s =
     (treePositions s = map fst gen \<and> originalPositions s = map snd gen
      \<and> length (currentPositions s) = length gen
      \<and> length (positions s) = 3 * length gen)"

text \<open>The morph progress after one tick, as the specification words it.\<close>

definition morphStep :: "scene \<Rightarrow> real" where
  "morphStep s =
     (case currentState s of
        Tree \<Rightarrow> min 1 (morphProgress s + transitionSpeed)
      | Exploded \<Rightarrow> max 0 (morphProgress s - transitionSpeed)
      | Zoomed \<Rightarrow> morphProgress s)"

definition isKeyEvent :: "event \<Rightarrow> bool" where
  "isKeyEvent e = (case e of KeyDown k \<Rightarrow> True | KeyUp k \<Rightarrow> True | _ \<Rightarrow> False)"

text \<open>
  The sprite a zoom request selects, as the specification words it: the sprite whose
  \<open>isSelected\<close> flag is set (the last one, should there be several), otherwise the one at
  \<open>selectedImageIndex\<close> when that index is in range.
\<close>

definition selectedSprite :: "scene \<Rightarrow> nat option" where
  "selectedSprite s =
     (case filter (\<lambda>j. isSelected (imageSprites s ! j)) [0..<length (imageSprites s)] of
        [] \<Rightarrow> (if 0 \<le> selectedImageIndex s
                    \<and> selectedImageIndex s < int (length (imageSprites s))
                 then Some (nat (selectedImageIndex s)) else None)
      | j # js \<Rightarrow> Some (last (j # js)))"

text \<open>
  No orbit slot satisfied the camera-facing comparison of a tick: \<open>maxZ\<close> is still
  \<open>-Infinity\<close> after the first pass.
\<close>

definition noSlotFacing :: "scene \<Rightarrow> bool" where
  "noSlotFacing s =
     (fst (snd (frontLoop (currentState s) (treeRotation s) (1 - morphProgress s) 0
                  (imageSprites s) (None, 0))) = None)"

text \<open>
  A sequence of events as the scene receives it when the hand is tracked: no key event
  (\<open>setupKeyboardControls\<close> runs only when the tracker cannot be set up, and then no
  gesture arrives), and each gesture-change event carries a label different from the
  one before it (\<open>updateGesture\<close> calls the handler only when the smoothed label
  differs from \<open>currentGesture\<close>); \<open>l\<close> is the label the tracker holds at the start.
\<close>

fun deliverable :: "gesture \<Rightarrow> event list \<Rightarrow> bool" where
  "deliverable l [] = True"
| "deliverable l (GestureChange g # es) = (g \<noteq> l \<and> deliverable g es)"
| "deliverable l (KeyDown k # es) = False"
| "deliverable l (KeyUp k # es) = False"
| "deliverable l (e # es) = deliverable l es"

text \<open>
  The scene without its particle buffers: every handler but the particle loop ignores
  them, so a run can be followed on this part alone.
\<close>

definition control :: "scene \<Rightarrow> scene" where
  "control s = s\<lparr>currentPositions := [], positions := []\<rparr>"

section \<open>Concrete frames, scenes and runs\<close>

text \<open>
  Frames of 21 landmarks (the detector's contract): the thumb tip is at \<open>(tx, 0.5)\<close>,
  the thumb IP at \<open>(0.4, 0.6)\<close>, the index tip at \<open>(0.53, iy)\<close>, the other three tips at
  heights \<open>my\<close>, \<open>ry\<close>, \<open>py\<close>, and every PIP joint at height \<open>0.6\<close>.
\<close>

definition mkLandmark :: "real \<Rightarrow> real \<Rightarrow> landmark" where
  "mkLandmark a b = \<lparr>lm_x = a, lm_y = b\<rparr>"

definition handFrame :: "real \<Rightarrow> real \<Rightarrow> real \<Rightarrow> real \<Rightarrow> real \<Rightarrow> landmark list" where
  "handFrame tx iy my ry py =
     [mkLandmark 0.5 0.9, mkLandmark 0.5 0.8, mkLandmark 0.5 0.7, mkLandmark 0.4 0.6,
      mkLandmark tx 0.5, mkLandmark 0.5 0.7, mkLandmark 0.5 0.6, mkLandmark 0.5 0.55,
      mkLandmark 0.53 iy, mkLandmark 0.6 0.7, mkLandmark 0.6 0.6, mkLandmark 0.6 0.5,
      mkLandmark 0.6 my, mkLandmark 0.7 0.7, mkLandmark 0.7 0.6, mkLandmark 0.7 0.5,
      mkLandmark 0.7 ry, mkLandmark 0.8 0.7, mkLandmark 0.8 0.6, mkLandmark 0.8 0.5,
      mkLandmark 0.8 py]"

definition okFrame :: "landmark list" where
  "okFrame = handFrame 0.5 0.54 0.4 0.4 0.4"

definition fistFrame :: "landmark list" where
  "fistFrame = handFrame 0.5 0.7 0.7 0.7 0.7"

definition openFrame :: "landmark list" where
  "openFrame = handFrame 0.3 0.4 0.4 0.4 0.4"

definition twoFrame :: "landmark list" where
  "twoFrame = handFrame 0.5 0.4 0.4 0.7 0.7"

text \<open>A setup with a single particle.\<close>

definition gen1 :: "(vec3 \<times> vec3) list" where
  "gen1 = [(\<lparr>vx = 1, vy = 2, vz = 3\<rparr>, \<lparr>vx = 5, vy = 6, vz = 7\<rparr>)]"

definition explodingScene :: scene where
  "explodingScene = (initialScene gen1)\<lparr>currentState := Exploded, morphProgress := 0.03\<rparr>"

definition visibleSprite :: sprite where
  "visibleSprite =
     \<lparr>url = SAMPLE_IMAGES ! 0, index = 0, originalScale = 2, baseAngle = Some 0,
      isSelected = False, opacity = 0.8, position = \<lparr>vx = 0, vy = 0, vz = 8\<rparr>, scale = 2\<rparr>"

text \<open>Zoomed from the exploded state onto a visible sprite.\<close>

definition zoomedScene :: scene where
  "zoomedScene =
     (initialScene gen1)\<lparr>currentState := Zoomed, previousState := Exploded, morphProgress := 0,
        zoomedSprite := Some 0, imageSprites := [visibleSprite]\<rparr>"

text \<open>Exploded, no image loaded yet, the second image chosen with the right arrow.\<close>

definition emptyOrbitScene :: scene where
  "emptyOrbitScene =
     (initialScene gen1)\<lparr>currentState := Exploded, previousState := Exploded,
        selectedImageIndex := 1\<rparr>"

text \<open>
  The first image loads, the hand opens, and fourteen ticks pass: the image is then
  selected and more than 0.3 opaque.
\<close>

definition zoomPath :: "event list" where
  "zoomPath =
     [ImageLoaded 0, GestureChange Gopen,
      Tick None, Tick None, Tick None, Tick None, Tick None, Tick None, Tick None,
      Tick None, Tick None, Tick None, Tick None, Tick None, Tick None, Tick None]"

section \<open>The gesture classifier\<close>

lemma getFingersExtended_frame:
  assumes "21 \<le> length lms"
  shows "getFingersExtended lms =
           Some [lm_x (lms ! 4) < lm_x (lms ! 3), lm_y (lms ! 8) < lm_y (lms ! 6),
                 lm_y (lms ! 12) < lm_y (lms ! 10), lm_y (lms ! 16) < lm_y (lms ! 14),
                 lm_y (lms ! 20) < lm_y (lms ! 18)]"
  using assms by (simp add: getFingersExtended_def nth_opt_def)

lemma isOKGesture_frame:
  assumes "21 \<le> length lms"
  shows "isOKGesture lms fe =
           Some (tipDistance (lms ! 4) (lms ! 8) < 0.08 \<and> flag fe 2 \<and> flag fe 3 \<and> flag fe 4)"
  using assms by (simp add: isOKGesture_def nth_opt_def)

lemma extendedCount_le_length: "extendedCount fe \<le> length fe"
  by (simp add: extendedCount_def)

lemma tipDistance_okFrame: "tipDistance (okFrame ! 4) (okFrame ! 8) = 0.05"
proof -
  have "(0.03::real) ^ 2 + 0.04 ^ 2 = 0.05 ^ 2" by (simp add: power2_eq_square)
  then have "sqrt ((0.03::real) ^ 2 + 0.04 ^ 2) = 0.05" by simp
  moreover have "tipDistance (okFrame ! 4) (okFrame ! 8) = sqrt ((0.03::real) ^ 2 + 0.04 ^ 2)"
    by (simp add: tipDistance_def okFrame_def handFrame_def mkLandmark_def power2_eq_square)
  ultimately show ?thesis by simp
qed

lemma length_handFrame: "length (handFrame tx iy my ry py) = 21"
  by (simp add: handFrame_def)

lemma tipDistance_openFrame: "\<not> tipDistance (openFrame ! 4) (openFrame ! 8) < 0.08"
proof -
  have eq: "tipDistance (openFrame ! 4) (openFrame ! 8) = sqrt ((23 / 100) ^ 2 + (1 / 10) ^ 2)"
    by (simp add: tipDistance_def openFrame_def handFrame_def mkLandmark_def)
  have "(23 / 100 :: real) \<le> sqrt ((23 / 100) ^ 2 + (1 / 10) ^ 2)"
    by (rule real_sqrt_sum_squares_ge1)
  moreover have "(0.08::real) < 23 / 100"
    by simp
  ultimately have "(0.08::real) < sqrt ((23 / 100) ^ 2 + (1 / 10) ^ 2)"
    by (rule less_le_trans [rotated])
  then have "\<not> sqrt ((23 / 100 :: real) ^ 2 + (1 / 10) ^ 2) < 0.08"
    by (rule less_not_sym)
  then show ?thesis unfolding eq .
qed

text \<open>
  Claim C1. For every landmark frame in which the Euclidean distance between the thumb tip
  (landmark 4) and the index tip (landmark 8) is below 0.08 and the middle, ring and pinky
  fingers are extended, \<open>detectGesture\<close> returns \<open>ok\<close>; nothing is assumed about the thumb
  and index flags or about the number of extended fingers.
\<close>

theorem detectGesture_ok:
  assumes "21 \<le> length lms"
    and "tipDistance (lms ! 4) (lms ! 8) < 0.08"
    and "getFingersExtended lms = Some fe"
    and "flag fe 2" and "flag fe 3" and "flag fe 4"
  shows "detectGesture lms = Some Gok"
  using assms by (simp add: detectGesture_def isOKGesture_frame)

theorem detectGesture_ok_witness:
  "21 \<le> length okFrame \<and> tipDistance (okFrame ! 4) (okFrame ! 8) < 0.08
   \<and> getFingersExtended okFrame = Some [False, True, True, True, True]
   \<and> extendedCount [False, True, True, True, True] = 4
   \<and> detectGesture okFrame = Some Gok"
proof -
  have len: "21 \<le> length okFrame" by (simp add: okFrame_def length_handFrame)
  have d: "tipDistance (okFrame ! 4) (okFrame ! 8) < 0.08" by (simp add: tipDistance_okFrame)
  have fe: "getFingersExtended okFrame = Some [False, True, True, True, True]"
    by (simp add: getFingersExtended_frame [OF len]) (simp add: okFrame_def handFrame_def mkLandmark_def)
  have "detectGesture okFrame = Some Gok"
    by (rule detectGesture_ok [OF len d fe]) (simp_all add: flag_def)
  with len d fe show ?thesis by (simp add: extendedCount_def)
qed

text \<open>
  Claim C2. For every landmark frame that does not satisfy the OK condition,
  \<open>detectGesture\<close> returns \<open>fist\<close> when at most one finger is extended, \<open>open\<close> when at
  least four are, and \<open>none\<close> when two or three are; the fist and the open condition
  never hold together, and the three cases cover every frame (at most five flags).
\<close>

theorem detectGesture_not_ok:
  assumes "21 \<le> length lms"
    and "getFingersExtended lms = Some fe"
    and "\<not> (tipDistance (lms ! 4) (lms ! 8) < 0.08 \<and> flag fe 2 \<and> flag fe 3 \<and> flag fe 4)"
  shows "(extendedCount fe \<le> 1 \<longrightarrow> detectGesture lms = Some Gfist)
       \<and> (4 \<le> extendedCount fe \<longrightarrow> detectGesture lms = Some Gopen)
       \<and> (extendedCount fe = 2 \<or> extendedCount fe = 3 \<longrightarrow> detectGesture lms = Some Gnone)
       \<and> \<not> (extendedCount fe \<le> 1 \<and> 4 \<le> extendedCount fe)
       \<and> extendedCount fe \<le> 5"
proof -
  have ok: "isOKGesture lms fe = Some False"
    using assms(3) by (simp add: isOKGesture_frame [OF assms(1)])
  have "length fe = 5"
    using assms(2) by (auto simp: getFingersExtended_frame [OF assms(1)])
  then have five: "extendedCount fe \<le> 5"
    using extendedCount_le_length [of fe] by simp
  have dg: "detectGesture lms =
            (if extendedCount fe \<le> 1 then Some Gfist
             else if 4 \<le> extendedCount fe then Some Gopen else Some Gnone)"
    by (simp add: detectGesture_def assms(2) ok)
  show ?thesis using five by (auto simp: dg)
qed

theorem detectGesture_not_ok_witness:
  "detectGesture fistFrame = Some Gfist \<and> detectGesture openFrame = Some Gopen
   \<and> detectGesture twoFrame = Some Gnone
   \<and> getFingersExtended fistFrame = Some [False, False, False, False, False]
   \<and> getFingersExtended openFrame = Some [True, True, True, True, True]
   \<and> getFingersExtended twoFrame = Some [False, True, True, False, False]"
proof -
  have l1: "21 \<le> length fistFrame" and l2: "21 \<le> length openFrame"
    and l3: "21 \<le> length twoFrame"
    by (simp_all add: fistFrame_def openFrame_def twoFrame_def length_handFrame)
  have f1: "getFingersExtended fistFrame = Some [False, False, False, False, False]"
    by (simp add: getFingersExtended_frame [OF l1])
       (simp add: fistFrame_def handFrame_def mkLandmark_def)
  have f2: "getFingersExtended openFrame = Some [True, True, True, True, True]"
    by (simp add: getFingersExtended_frame [OF l2])
       (simp add: openFrame_def handFrame_def mkLandmark_def)
  have f3: "getFingersExtended twoFrame = Some [False, True, True, False, False]"
    by (simp add: getFingersExtended_frame [OF l3])
       (simp add: twoFrame_def handFrame_def mkLandmark_def)
  have "detectGesture fistFrame = Some Gfist"
    using detectGesture_not_ok [OF l1 f1] by (simp add: flag_def extendedCount_def)
  moreover have "detectGesture openFrame = Some Gopen"
    using detectGesture_not_ok [OF l2 f2] tipDistance_openFrame
    by (simp add: flag_def extendedCount_def)
  moreover have "detectGesture twoFrame = Some Gnone"
    using detectGesture_not_ok [OF l3 f3] by (simp add: flag_def extendedCount_def)
  ultimately show ?thesis using f1 f2 f3 by simp
qed

section \<open>The gesture smoother\<close>

lemma set_firsts: "set (firsts xs) = set xs"
  by (induction xs) auto

lemma firsts_snoc: "firsts (xs @ [a]) = (if a \<in> set xs then firsts xs else firsts xs @ [a])"
  by (induction xs) auto

lemma tally_closed:
  "foldl countStep [] h = map (\<lambda>k. (k, count_list h k)) (firsts h)"
proof (induction h rule: rev_induct)
  case Nil
  then show ?case by simp
next
  case (snoc g h)
  have m: "map_of (map (\<lambda>k. (k, count_list h k)) (firsts h)) g =
           (if g \<in> set h then Some (count_list h g) else None)"
    by (simp add: map_of_map_restrict set_firsts restrict_map_def)
  have step: "foldl countStep [] (h @ [g]) =
              countStep (map (\<lambda>k. (k, count_list h k)) (firsts h)) g"
    by (simp add: snoc)
  show ?case
  proof (cases "g \<in> set h")
    case True
    then show ?thesis
      unfolding step by (simp add: countStep_def m firsts_snoc)
  next
    case False
    then show ?thesis
      unfolding step by (auto simp: countStep_def m firsts_snoc set_firsts)
  qed
qed

lemma pickStep_pair:
  "pickStep (m, s) (g, n) = (if m < n then (n, g) else (m, s))"
  by (simp add: pickStep_def)

lemma ex_max_in_list:
  fixes c :: "'a \<Rightarrow> nat"
  assumes "ks \<noteq> []"
  shows "\<exists>x \<in> set ks. \<forall>k' \<in> set ks. c k' \<le> c x"
proof -
  have "finite (c ` set ks)" and "c ` set ks \<noteq> {}" using assms by simp_all
  then have "Max (c ` set ks) \<in> c ` set ks" by (rule Max_in)
  then obtain x where x: "x \<in> set ks" "c x = Max (c ` set ks)" by auto
  have "\<forall>k' \<in> set ks. c k' \<le> c x"
    by (simp add: x(2))
  with x(1) show ?thesis by blast
qed

lemma pick_find:
  "snd (foldl pickStep (m, s) (map (\<lambda>k. (k, c k)) ks)) =
     (case find (\<lambda>k. m < c k \<and> (\<forall>k' \<in> set ks. c k' \<le> c k)) ks of
        Some k \<Rightarrow> k | None \<Rightarrow> s)"
proof (induction ks arbitrary: m s)
  case Nil
  then show ?case by simp
next
  case (Cons k ks)
  show ?case
  proof (cases "m < c k")
    case True
    show ?thesis
    proof (cases "\<forall>k' \<in> set ks. c k' \<le> c k")
      case allle: True
      then have "find (\<lambda>x. c k < c x \<and> (\<forall>k' \<in> set ks. c k' \<le> c x)) ks = None"
        by (auto simp: find_None_iff)
      then show ?thesis using True allle by (simp add: pickStep_pair Cons.IH)
    next
      case False
      then obtain b where b: "b \<in> set ks" "c k < c b" by (auto simp: not_le)
      have "find (\<lambda>x. c k < c x \<and> (\<forall>k' \<in> set ks. c k' \<le> c x)) ks =
            find (\<lambda>x. m < c x \<and> (\<forall>k' \<in> set (k # ks). c k' \<le> c x)) ks"
      proof (rule find_cong)
        fix x assume "x \<in> set ks"
        show "(c k < c x \<and> (\<forall>k' \<in> set ks. c k' \<le> c x)) =
              (m < c x \<and> (\<forall>k' \<in> set (k # ks). c k' \<le> c x))"
        proof (cases "\<forall>k' \<in> set ks. c k' \<le> c x")
          case True
          with b have "c k < c x" by force
          with True \<open>m < c k\<close> show ?thesis by auto
        next
          case False
          then show ?thesis by auto
        qed
      qed simp
      moreover have "find (\<lambda>x. c k < c x \<and> (\<forall>k' \<in> set ks. c k' \<le> c x)) ks \<noteq> None"
      proof -
        from b(1) have "ks \<noteq> []" by auto
        then obtain x where x: "x \<in> set ks" "\<forall>k' \<in> set ks. c k' \<le> c x"
          using ex_max_in_list [of ks c] by blast
        with b have "c k < c x" by force
        with x show ?thesis by (auto simp: find_None_iff)
      qed
      ultimately show ?thesis using True False by (auto simp: pickStep_pair Cons.IH)
    qed
  next
    case False
    have "find (\<lambda>x. m < c x \<and> (\<forall>k' \<in> set ks. c k' \<le> c x)) ks =
          find (\<lambda>x. m < c x \<and> (\<forall>k' \<in> set (k # ks). c k' \<le> c x)) ks"
      using False by (intro find_cong) auto
    then show ?thesis using False by (simp add: pickStep_pair Cons.IH)
  qed
qed

lemma find_filter_weaker:
  "(\<And>x. P x \<Longrightarrow> Q x) \<Longrightarrow> find P (filter Q xs) = find P xs"
  by (induction xs) auto

lemma find_firsts: "find P (firsts xs) = find P xs"
proof (induction xs)
  case Nil
  then show ?case by simp
next
  case (Cons a xs)
  show ?case
  proof (cases "P a")
    case True
    then show ?thesis by simp
  next
    case False
    then have "find P (filter (\<lambda>y. y \<noteq> a) (firsts xs)) = find P (firsts xs)"
      by (intro find_filter_weaker) auto
    then show ?thesis using False Cons by simp
  qed
qed

lemma count_list_pos: "x \<in> set h \<Longrightarrow> 0 < count_list h x"
  by (metis count_list_0_iff gr0I)

lemma smooth_find:
  "smooth h = (case find (isMajority h) h of Some k \<Rightarrow> k | None \<Rightarrow> Gnone)"
proof -
  have "find (\<lambda>k. 0 < count_list h k \<and> (\<forall>k' \<in> set (firsts h). count_list h k' \<le> count_list h k)) (firsts h)
        = find (isMajority h) (firsts h)"
    by (intro find_cong) (auto simp: isMajority_def set_firsts count_list_pos)
  then show ?thesis
    by (simp add: smooth_def tally_closed pick_find find_firsts)
qed

lemma length_lastN: "length (lastN n xs) \<le> n"
  by (simp add: lastN_def)

lemma lastN_lastN_append: "lastN n (lastN n xs @ ys) = lastN n (xs @ ys)"
  by (cases "length xs \<le> n") (auto simp: lastN_def add.commute)

lemma pushHistory_lastN:
  "length h \<le> historySize \<Longrightarrow> pushHistory h g = lastN historySize (h @ [g])"
proof (cases "historySize < length (h @ [g])")
  case True
  assume "length h \<le> historySize"
  with True have e: "length (h @ [g]) - historySize = Suc 0" by simp
  have "lastN historySize (h @ [g]) = tl (h @ [g])"
    unfolding lastN_def e by (simp only: drop_Suc drop_0)
  with True show ?thesis by (simp add: pushHistory_def Let_def)
next
  case False
  then show ?thesis by (simp add: pushHistory_def Let_def lastN_def)
qed

lemma updateGesture_fields:
  "updateGesture t g = (t', ev) \<Longrightarrow>
     gestureHistory t' = pushHistory (gestureHistory t) g
   \<and> currentGesture t' = smooth (gestureHistory t')
   \<and> onGestureChange t' = onGestureChange t
   \<and> ev = (if smooth (gestureHistory t') \<noteq> currentGesture t \<and> onGestureChange t
           then Some (smooth (gestureHistory t')) else None)"
  by (auto simp: updateGesture_def Let_def split: if_splits)

lemma feed_history:
  "length (gestureHistory t) \<le> historySize \<Longrightarrow> feed t gs = (t', evs) \<Longrightarrow>
     gestureHistory t' = lastN historySize (gestureHistory t @ gs)"
proof (induction gs arbitrary: t t' evs)
  case Nil
  then show ?case by (simp add: lastN_def)
next
  case (Cons g gs)
  obtain t1 ev where u: "updateGesture t g = (t1, ev)" by (cases "updateGesture t g")
  obtain t2 evs2 where f: "feed t1 gs = (t2, evs2)" by (cases "feed t1 gs")
  from Cons.prems(2) u f have t': "t' = t2" by simp
  have h1: "gestureHistory t1 = lastN historySize (gestureHistory t @ [g])"
    using updateGesture_fields [OF u] pushHistory_lastN [OF Cons.prems(1)] by simp
  then have "length (gestureHistory t1) \<le> historySize" by (simp add: length_lastN)
  from Cons.IH [OF this f] show ?case
    by (simp add: t' h1 lastN_lastN_append)
qed

lemma feed_current:
  "onGestureChange t \<Longrightarrow> feed t gs = (t', evs) \<Longrightarrow>
     currentGesture t' = lastEmitted (currentGesture t) evs \<and> onGestureChange t'"
proof (induction gs arbitrary: t t' evs)
  case Nil
  then show ?case by auto
next
  case (Cons g gs)
  obtain t1 ev where u: "updateGesture t g = (t1, ev)" by (cases "updateGesture t g")
  obtain t2 evs2 where f: "feed t1 gs = (t2, evs2)" by (cases "feed t1 gs")
  from Cons.prems(2) u f have t': "t' = t2" and evs: "evs = ev # evs2" by simp_all
  note uf = updateGesture_fields [OF u]
  from uf Cons.prems(1) have on1: "onGestureChange t1" by simp
  have "lastEmitted (currentGesture t) (ev # evs2) = lastEmitted (currentGesture t1) evs2"
    using uf Cons.prems(1) by (cases ev) (auto split: if_splits)
  with Cons.IH [OF on1 f] show ?case by (simp add: t' evs)
qed

lemma firstIndex_le:
  assumes "i < length xs" and "xs ! i = a"
  shows "firstIndex xs a \<le> i"
proof (rule ccontr)
  assume "\<not> firstIndex xs a \<le> i"
  then have lt: "i < length (takeWhile (\<lambda>b. b \<noteq> a) xs)" by (simp add: firstIndex_def)
  then have "takeWhile (\<lambda>b. b \<noteq> a) xs ! i \<in> set (takeWhile (\<lambda>b. b \<noteq> a) xs)"
    by (rule nth_mem)
  then have "takeWhile (\<lambda>b. b \<noteq> a) xs ! i \<noteq> a" by (auto dest: set_takeWhileD)
  with lt assms(2) show False by (simp add: takeWhile_nth)
qed

lemma firstIndex_nth:
  assumes "a \<in> set xs"
  shows "firstIndex xs a < length xs \<and> xs ! firstIndex xs a = a"
proof -
  have "takeWhile (\<lambda>b. b \<noteq> a) xs \<noteq> xs"
    using assms by (auto simp: takeWhile_eq_all_conv)
  then have "length (takeWhile (\<lambda>b. b \<noteq> a) xs) \<noteq> length xs"
    by (metis takeWhile_eq_take take_all_iff order_refl)
  then have lt: "length (takeWhile (\<lambda>b. b \<noteq> a) xs) < length xs"
    using length_takeWhile_le [of "\<lambda>b. b \<noteq> a" xs] by simp
  from nth_length_takeWhile [OF lt] lt show ?thesis by (simp add: firstIndex_def)
qed

lemma smooth_majority:
  assumes "h \<noteq> []"
  shows "smooth h \<in> set h"
    and "\<forall>b \<in> set h. count_list h b \<le> count_list h (smooth h)"
    and "\<forall>b \<in> set h. count_list h b = count_list h (smooth h) \<longrightarrow>
           firstIndex h (smooth h) \<le> firstIndex h b"
proof -
  obtain m where m: "m \<in> set h" "isMajority h m"
    using ex_max_in_list [OF assms, of "count_list h"] by (auto simp: isMajority_def)
  then have "find (isMajority h) h \<noteq> None" by (auto simp: find_None_iff)
  then obtain s where s: "find (isMajority h) h = Some s" by auto
  then have sm: "smooth h = s" by (simp add: smooth_find)
  from s obtain i where i: "i < length h" "isMajority h (h ! i)" "s = h ! i"
    "\<forall>j < i. \<not> isMajority h (h ! j)"
    by (auto simp: find_Some_iff)
  show "smooth h \<in> set h" using i by (simp add: sm)
  show maj: "\<forall>b \<in> set h. count_list h b \<le> count_list h (smooth h)"
    using i by (simp add: sm isMajority_def)
  show "\<forall>b \<in> set h. count_list h b = count_list h (smooth h) \<longrightarrow>
           firstIndex h (smooth h) \<le> firstIndex h b"
  proof (intro ballI impI)
    fix b assume b: "b \<in> set h" "count_list h b = count_list h (smooth h)"
    then have "isMajority h b" using maj by (simp add: isMajority_def)
    then have "isMajority h (h ! firstIndex h b)" using firstIndex_nth [OF b(1)] by simp
    then have "i \<le> firstIndex h b" using i(4) by (meson not_le_imp_less)
    moreover have "firstIndex h (smooth h) \<le> i" using firstIndex_le [of i h s] i by (simp add: sm)
    ultimately show "firstIndex h (smooth h) \<le> firstIndex h b" by simp
  qed
qed

text \<open>
  Claim C5. For every sequence \<open>gs\<close> of raw labels fed to a tracker whose handler is
  registered, and every further label \<open>g\<close>: the history is the window of the last five
  labels; the smoothed label occurs in it, no label of the window is more frequent, and
  among the labels as frequent as it none occurs earlier for the first time; it becomes
  the current gesture; and an event carrying it is emitted exactly when it differs from
  the label emitted last (\<open>none\<close> before any emission). After the window
  fist, fist, open, fist, fist the smoothed label is \<open>fist\<close>.
\<close>

theorem updateGesture_smoothing:
  "(case feed listeningTracker gs of (t, evs) \<Rightarrow>
      case updateGesture t g of (t', ev) \<Rightarrow>
        let h = gestureHistory t'; s = smooth h in
          h = lastN historySize (gs @ [g])
        \<and> s \<in> set h
        \<and> (\<forall>b \<in> set h. count_list h b \<le> count_list h s)
        \<and> (\<forall>b \<in> set h. count_list h b = count_list h s \<longrightarrow> firstIndex h s \<le> firstIndex h b)
        \<and> currentGesture t' = s
        \<and> ev = (if s \<noteq> lastEmitted Gnone evs then Some s else None))
   \<and> smooth [Gfist, Gfist, Gopen, Gfist, Gfist] = Gfist"
proof -
  obtain t evs where f: "feed listeningTracker gs = (t, evs)" by (cases "feed listeningTracker gs")
  obtain t' ev where u: "updateGesture t g = (t', ev)" by (cases "updateGesture t g")
  have init: "length (gestureHistory listeningTracker) \<le> historySize"
    "onGestureChange listeningTracker" "currentGesture listeningTracker = Gnone"
    "gestureHistory listeningTracker = []"
    by (simp_all add: listeningTracker_def newTracker_def)
  have ht: "gestureHistory t = lastN historySize gs"
    using feed_history [OF init(1) f] by (simp add: init)
  have cur: "currentGesture t = lastEmitted Gnone evs" and on: "onGestureChange t"
    using feed_current [OF init(2) f] by (simp_all add: init)
  note uf = updateGesture_fields [OF u]
  have h': "gestureHistory t' = lastN historySize (gs @ [g])"
    using uf pushHistory_lastN [of "gestureHistory t" g]
    by (simp add: ht length_lastN lastN_lastN_append)
  have ne: "gestureHistory t' \<noteq> []"
    by (simp add: h' lastN_def historySize_def)
  have ex: "smooth [Gfist, Gfist, Gopen, Gfist, Gfist] = Gfist"
    by (simp add: smooth_def countStep_def pickStep_def)
  show ?thesis
    using smooth_majority [OF ne] uf h' cur on ex
    by (simp add: f u Let_def)
qed

theorem updateGesture_smoothing_witness:
  "feed listeningTracker [Gfist, Gfist, Gopen, Gfist] =
     (\<lparr>currentGesture = Gfist, gestureHistory = [Gfist, Gfist, Gopen, Gfist], onGestureChange = True\<rparr>,
      [Some Gfist, None, None, None])
   \<and> updateGesture \<lparr>currentGesture = Gfist, gestureHistory = [Gfist, Gfist, Gopen, Gfist], onGestureChange = True\<rparr> Gfist
      = (\<lparr>currentGesture = Gfist, gestureHistory = [Gfist, Gfist, Gopen, Gfist, Gfist], onGestureChange = True\<rparr>, None)
   \<and> lastEmitted Gnone [Some Gfist, None, None, None] = Gfist
   \<and> count_list [Gfist, Gfist, Gopen, Gfist, Gfist] Gfist = 4"
  using updateGesture_smoothing [of "[Gfist, Gfist, Gopen, Gfist]" Gfist]
  by (simp add: listeningTracker_def newTracker_def updateGesture_def pushHistory_def historySize_def
      smooth_def countStep_def pickStep_def Let_def)

section \<open>The render tick and runs of events\<close>

lemma particleLoop_unfold:
  "particleLoop mp trees explodeds i current buf =
     (if i < length current then
        (case nth_opt trees i of
           None \<Rightarrow> None
         | Some tree \<Rightarrow>
            (case nth_opt explodeds i of
               None \<Rightarrow> None
             | Some exploded \<Rightarrow>
                 particleLoop mp trees explodeds (i + 1) (current[i := blend mp exploded tree])
                      (buf[i * 3 := vx (blend mp exploded tree),
                           i * 3 + 1 := vy (blend mp exploded tree),
                           i * 3 + 2 := vz (blend mp exploded tree)])))
      else Some (current, buf))"
  by (subst particleLoop.simps) (simp add: Let_def blend_def split: option.splits)

lemma particleLoop_spec:
  assumes "length current \<le> length trees" and "length current \<le> length explodeds"
  shows "\<exists>cur' buf'.
           particleLoop mp trees explodeds i current buf = Some (cur', buf')
         \<and> length cur' = length current \<and> length buf' = length buf
         \<and> (\<forall>j < length current. cur' ! j =
               (if i \<le> j then blend mp (explodeds ! j) (trees ! j) else current ! j))
         \<and> (\<forall>j < length current. j * 3 + 2 < length buf \<longrightarrow>
               buf' ! (j * 3) =
                 (if i \<le> j then vx (blend mp (explodeds ! j) (trees ! j)) else buf ! (j * 3))
             \<and> buf' ! (j * 3 + 1) =
                 (if i \<le> j then vy (blend mp (explodeds ! j) (trees ! j)) else buf ! (j * 3 + 1))
             \<and> buf' ! (j * 3 + 2) =
                 (if i \<le> j then vz (blend mp (explodeds ! j) (trees ! j)) else buf ! (j * 3 + 2)))"
  using assms
proof (induction mp trees explodeds i current buf rule: particleLoop.induct)
  case (1 mp trees explodeds i current buf)
  show ?case
  proof (cases "i < length current")
    case False
    then show ?thesis by (subst particleLoop_unfold) simp
  next
    case True
    let ?p = "blend mp (explodeds ! i) (trees ! i)"
    let ?cur = "current[i := ?p]"
    let ?buf = "buf[i * 3 := vx ?p, i * 3 + 1 := vy ?p, i * 3 + 2 := vz ?p]"
    have nt: "nth_opt trees i = Some (trees ! i)" and ne: "nth_opt explodeds i = Some (explodeds ! i)"
      using True "1.prems" by (simp_all add: nth_opt_def)
    have unf: "particleLoop mp trees explodeds i current buf =
               particleLoop mp trees explodeds (i + 1) ?cur ?buf"
      by (subst particleLoop_unfold) (simp add: True nt ne)
    have "\<exists>cur' buf'.
           particleLoop mp trees explodeds (i + 1) ?cur ?buf = Some (cur', buf')
         \<and> length cur' = length ?cur \<and> length buf' = length ?buf
         \<and> (\<forall>j < length ?cur. cur' ! j =
               (if i + 1 \<le> j then blend mp (explodeds ! j) (trees ! j) else ?cur ! j))
         \<and> (\<forall>j < length ?cur. j * 3 + 2 < length ?buf \<longrightarrow>
               buf' ! (j * 3) =
                 (if i + 1 \<le> j then vx (blend mp (explodeds ! j) (trees ! j)) else ?buf ! (j * 3))
             \<and> buf' ! (j * 3 + 1) =
                 (if i + 1 \<le> j then vy (blend mp (explodeds ! j) (trees ! j)) else ?buf ! (j * 3 + 1))
             \<and> buf' ! (j * 3 + 2) =
                 (if i + 1 \<le> j then vz (blend mp (explodeds ! j) (trees ! j)) else ?buf ! (j * 3 + 2)))"
      apply (rule "1.IH" [OF True nt ne])
      using "1.prems" by (simp_all add: blend_def)
    then obtain cur' buf' where
      r: "particleLoop mp trees explodeds (i + 1) ?cur ?buf = Some (cur', buf')"
      and lc: "length cur' = length current" and lb: "length buf' = length buf"
      and c: "\<And>j. j < length current \<Longrightarrow> cur' ! j =
               (if i + 1 \<le> j then blend mp (explodeds ! j) (trees ! j) else ?cur ! j)"
      and b: "\<And>j. j < length current \<Longrightarrow> j * 3 + 2 < length buf \<Longrightarrow>
               buf' ! (j * 3) =
                 (if i + 1 \<le> j then vx (blend mp (explodeds ! j) (trees ! j)) else ?buf ! (j * 3))
             \<and> buf' ! (j * 3 + 1) =
                 (if i + 1 \<le> j then vy (blend mp (explodeds ! j) (trees ! j)) else ?buf ! (j * 3 + 1))
             \<and> buf' ! (j * 3 + 2) =
                 (if i + 1 \<le> j then vz (blend mp (explodeds ! j) (trees ! j)) else ?buf ! (j * 3 + 2))"
      by auto
    have c': "\<forall>j < length current. cur' ! j =
               (if i \<le> j then blend mp (explodeds ! j) (trees ! j) else current ! j)"
    proof (intro allI impI)
      fix j assume j: "j < length current"
      show "cur' ! j = (if i \<le> j then blend mp (explodeds ! j) (trees ! j) else current ! j)"
        using c [OF j] j by (cases "j = i") auto
    qed
    have b': "\<forall>j < length current. j * 3 + 2 < length buf \<longrightarrow>
               buf' ! (j * 3) =
                 (if i \<le> j then vx (blend mp (explodeds ! j) (trees ! j)) else buf ! (j * 3))
             \<and> buf' ! (j * 3 + 1) =
                 (if i \<le> j then vy (blend mp (explodeds ! j) (trees ! j)) else buf ! (j * 3 + 1))
             \<and> buf' ! (j * 3 + 2) =
                 (if i \<le> j then vz (blend mp (explodeds ! j) (trees ! j)) else buf ! (j * 3 + 2))"
    proof (intro allI impI)
      fix j assume j: "j < length current" "j * 3 + 2 < length buf"
      show "buf' ! (j * 3) =
                 (if i \<le> j then vx (blend mp (explodeds ! j) (trees ! j)) else buf ! (j * 3))
             \<and> buf' ! (j * 3 + 1) =
                 (if i \<le> j then vy (blend mp (explodeds ! j) (trees ! j)) else buf ! (j * 3 + 1))
             \<and> buf' ! (j * 3 + 2) =
                 (if i \<le> j then vz (blend mp (explodeds ! j) (trees ! j)) else buf ! (j * 3 + 2))"
      proof (cases "j = i")
        case True
        then show ?thesis using b [OF j] j by (simp add: nth_list_update)
      next
        case False
        then have "i * 3 \<noteq> j * 3" "i * 3 + 1 \<noteq> j * 3" "i * 3 + 2 \<noteq> j * 3"
          "i * 3 \<noteq> j * 3 + 1" "i * 3 + 1 \<noteq> j * 3 + 1" "i * 3 + 2 \<noteq> j * 3 + 1"
          "i * 3 \<noteq> j * 3 + 2" "i * 3 + 1 \<noteq> j * 3 + 2" "i * 3 + 2 \<noteq> j * 3 + 2"
          by presburger+
        then show ?thesis using b [OF j] j False by (auto simp: nth_list_update)
      qed
    qed
    show ?thesis
      unfolding unf using r lc lb c' b' by blast
  qed
qed

lemma updateParticlePositions_spec:
  assumes "particlesOk s"
  shows "\<exists>cur buf.
           updateParticlePositions s = Some (s\<lparr>currentPositions := cur, positions := buf\<rparr>)
         \<and> length cur = length (currentPositions s) \<and> length buf = length (positions s)
         \<and> (\<forall>j < length (currentPositions s).
               cur ! j = blend (morphProgress s) (originalPositions s ! j) (treePositions s ! j))
         \<and> (\<forall>j < length (currentPositions s). j * 3 + 2 < length (positions s) \<longrightarrow>
               buf ! (j * 3) = vx (blend (morphProgress s) (originalPositions s ! j) (treePositions s ! j))
             \<and> buf ! (j * 3 + 1) = vy (blend (morphProgress s) (originalPositions s ! j) (treePositions s ! j))
             \<and> buf ! (j * 3 + 2) = vz (blend (morphProgress s) (originalPositions s ! j) (treePositions s ! j)))"
proof -
  from assms have l: "length (currentPositions s) \<le> length (treePositions s)"
    "length (currentPositions s) \<le> length (originalPositions s)"
    by (simp_all add: particlesOk_def)
  from particleLoop_spec [OF l, of "morphProgress s" 0 "positions s"]
  obtain cur buf where
    r: "particleLoop (morphProgress s) (treePositions s) (originalPositions s) 0
          (currentPositions s) (positions s) = Some (cur, buf)"
    and rest: "length cur = length (currentPositions s)" "length buf = length (positions s)"
      "\<forall>j < length (currentPositions s).
               cur ! j = blend (morphProgress s) (originalPositions s ! j) (treePositions s ! j)"
      "\<forall>j < length (currentPositions s). j * 3 + 2 < length (positions s) \<longrightarrow>
               buf ! (j * 3) = vx (blend (morphProgress s) (originalPositions s ! j) (treePositions s ! j))
             \<and> buf ! (j * 3 + 1) = vy (blend (morphProgress s) (originalPositions s ! j) (treePositions s ! j))
             \<and> buf ! (j * 3 + 2) = vz (blend (morphProgress s) (originalPositions s ! j) (treePositions s ! j))"
    by auto
  have "updateParticlePositions s = Some (s\<lparr>currentPositions := cur, positions := buf\<rparr>)"
    by (simp add: updateParticlePositions_def r)
  with rest show ?thesis by blast
qed

lemma updateImageVisibility_frame:
  "currentState (updateImageVisibility s) = currentState s"
  "previousState (updateImageVisibility s) = previousState s"
  "morphProgress (updateImageVisibility s) = morphProgress s"
  "treePositions (updateImageVisibility s) = treePositions s"
  "originalPositions (updateImageVisibility s) = originalPositions s"
  "currentPositions (updateImageVisibility s) = currentPositions s"
  "positions (updateImageVisibility s) = positions s"
  by (simp_all add: updateImageVisibility_def Let_def split: prod.splits)

lemma updateRotation_frame:
  "currentState (updateRotation h s) = currentState s"
  "previousState (updateRotation h s) = previousState s"
  "morphProgress (updateRotation h s) = morphProgress s"
  "treePositions (updateRotation h s) = treePositions s"
  "originalPositions (updateRotation h s) = originalPositions s"
  "currentPositions (updateRotation h s) = currentPositions s"
  "positions (updateRotation h s) = positions s"
  "selectedImageIndex (updateRotation h s) = selectedImageIndex s"
  by (simp_all add: updateRotation_def Let_def)

lemma animate_spec:
  assumes "particlesOk s"
  shows "\<exists>s'. animate hand s = Some s'
        \<and> currentState s' = currentState s \<and> previousState s' = previousState s
        \<and> morphProgress s' = morphStep s
        \<and> treePositions s' = treePositions s \<and> originalPositions s' = originalPositions s
        \<and> length (currentPositions s') = length (currentPositions s)
        \<and> length (positions s') = length (positions s)
        \<and> (\<forall>j < length (currentPositions s).
               currentPositions s' ! j = blend (morphProgress s') (originalPositions s ! j) (treePositions s ! j))
        \<and> (\<forall>j < length (currentPositions s). j * 3 + 2 < length (positions s) \<longrightarrow>
               positions s' ! (j * 3) = vx (blend (morphProgress s') (originalPositions s ! j) (treePositions s ! j))
             \<and> positions s' ! (j * 3 + 1) = vy (blend (morphProgress s') (originalPositions s ! j) (treePositions s ! j))
             \<and> positions s' ! (j * 3 + 2) = vz (blend (morphProgress s') (originalPositions s ! j) (treePositions s ! j)))"
proof -
  define s2 where "s2 = (let s1 = s\<lparr>time := time s + 0.016\<rparr> in
          (if currentState s1 = Tree
                then s1\<lparr>morphProgress := min 1 (morphProgress s1 + transitionSpeed)\<rparr>
                else if currentState s1 = Exploded
                then s1\<lparr>morphProgress := max 0 (morphProgress s1 - transitionSpeed)\<rparr>
                else s1))"
  have s2: "currentState s2 = currentState s" "previousState s2 = previousState s"
    "treePositions s2 = treePositions s" "originalPositions s2 = originalPositions s"
    "currentPositions s2 = currentPositions s" "positions s2 = positions s"
    by (simp_all add: s2_def Let_def)
  have mp2: "morphProgress s2 = morphStep s"
    by (cases "currentState s") (simp_all add: s2_def Let_def morphStep_def)
  have ok2: "particlesOk s2" using assms by (simp add: particlesOk_def s2)
  have an: "animate hand s = (case updateParticlePositions s2 of
           None \<Rightarrow> None
         | Some s3 \<Rightarrow> Some (updateRotation hand (updateImageVisibility s3)))"
    by (simp add: animate_def s2_def Let_def)
  from updateParticlePositions_spec [OF ok2] obtain cur buf where
    u: "updateParticlePositions s2 = Some (s2\<lparr>currentPositions := cur, positions := buf\<rparr>)"
    and rest: "length cur = length (currentPositions s2)" "length buf = length (positions s2)"
      "\<forall>j < length (currentPositions s2).
               cur ! j = blend (morphProgress s2) (originalPositions s2 ! j) (treePositions s2 ! j)"
      "\<forall>j < length (currentPositions s2). j * 3 + 2 < length (positions s2) \<longrightarrow>
               buf ! (j * 3) = vx (blend (morphProgress s2) (originalPositions s2 ! j) (treePositions s2 ! j))
             \<and> buf ! (j * 3 + 1) = vy (blend (morphProgress s2) (originalPositions s2 ! j) (treePositions s2 ! j))
             \<and> buf ! (j * 3 + 2) = vz (blend (morphProgress s2) (originalPositions s2 ! j) (treePositions s2 ! j))"
    by blast
  let ?s' = "updateRotation hand (updateImageVisibility (s2\<lparr>currentPositions := cur, positions := buf\<rparr>))"
  have "animate hand s = Some ?s'" by (simp add: an u)
  moreover have "currentState ?s' = currentState s" "previousState ?s' = previousState s"
    "morphProgress ?s' = morphStep s" "treePositions ?s' = treePositions s"
    "originalPositions ?s' = originalPositions s" "currentPositions ?s' = cur" "positions ?s' = buf"
    by (simp_all add: updateRotation_frame updateImageVisibility_frame s2 mp2)
  ultimately show ?thesis using rest by (simp add: s2 mp2)
qed

lemma handlers_frame:
  "treePositions (handleGestureChange g s) = treePositions s"
  "originalPositions (handleGestureChange g s) = originalPositions s"
  "currentPositions (handleGestureChange g s) = currentPositions s"
  "positions (handleGestureChange g s) = positions s"
  "morphProgress (handleGestureChange g s) = morphProgress s"
  "treePositions (keydown k s) = treePositions s"
  "originalPositions (keydown k s) = originalPositions s"
  "currentPositions (keydown k s) = currentPositions s"
  "positions (keydown k s) = positions s"
  "morphProgress (keydown k s) = morphProgress s"
  "treePositions (keyup k s) = treePositions s"
  "originalPositions (keyup k s) = originalPositions s"
  "currentPositions (keyup k s) = currentPositions s"
  "positions (keyup k s) = positions s"
  "morphProgress (keyup k s) = morphProgress s"
  by (cases g; cases k;
      simp add: zoomToNearestImage_def zoomSelectedImage_def unzoomImage_def keyup_def Let_def
           split: option.splits)+

lemma clicks_frame:
  "treePositions (closeZoomClick s) = treePositions s"
  "originalPositions (closeZoomClick s) = originalPositions s"
  "currentPositions (closeZoomClick s) = currentPositions s"
  "positions (closeZoomClick s) = positions s"
  "morphProgress (closeZoomClick s) = morphProgress s"
  "treePositions (overlayClick b s) = treePositions s"
  "originalPositions (overlayClick b s) = originalPositions s"
  "currentPositions (overlayClick b s) = currentPositions s"
  "positions (overlayClick b s) = positions s"
  "morphProgress (overlayClick b s) = morphProgress s"
  "treePositions (imageLoaded i s) = treePositions s"
  "originalPositions (imageLoaded i s) = originalPositions s"
  "currentPositions (imageLoaded i s) = currentPositions s"
  "positions (imageLoaded i s) = positions s"
  "morphProgress (imageLoaded i s) = morphProgress s"
  by (simp_all add: closeZoomClick_def overlayClick_def imageLoaded_def Let_def)

lemma morphStep_bounds:
  "0 \<le> morphProgress s \<Longrightarrow> morphProgress s \<le> 1 \<Longrightarrow> 0 \<le> morphStep s \<and> morphStep s \<le> 1"
  by (cases "currentState s") (simp_all add: morphStep_def transitionSpeed_def)

lemma step_total:
  assumes "particlesOk s"
  shows "\<exists>s'. step e s = Some s' \<and> particlesOk s'
        \<and> (0 \<le> morphProgress s \<and> morphProgress s \<le> 1 \<longrightarrow> 0 \<le> morphProgress s' \<and> morphProgress s' \<le> 1)
        \<and> (setupInv gen s \<longrightarrow> setupInv gen s')"
proof (cases e)
  case (Tick hand)
  from animate_spec [OF assms, of hand] obtain s' where
    a: "animate hand s = Some s'" "morphProgress s' = morphStep s"
    "treePositions s' = treePositions s" "originalPositions s' = originalPositions s"
    "length (currentPositions s') = length (currentPositions s)"
    "length (positions s') = length (positions s)"
    by blast
  then show ?thesis using assms Tick morphStep_bounds [of s]
    by (simp add: particlesOk_def setupInv_def)
qed (use assms in \<open>simp_all add: particlesOk_def setupInv_def handlers_frame clicks_frame\<close>)

lemma run_total:
  assumes "particlesOk s"
  shows "\<exists>s'. run s evs = Some s' \<and> particlesOk s'
        \<and> (0 \<le> morphProgress s \<and> morphProgress s \<le> 1 \<longrightarrow> 0 \<le> morphProgress s' \<and> morphProgress s' \<le> 1)
        \<and> (setupInv gen s \<longrightarrow> setupInv gen s')"
  using assms
proof (induction evs arbitrary: s)
  case Nil
  then show ?case by simp
next
  case (Cons e evs)
  from step_total [OF Cons.prems, of e gen] obtain s1 where
    s1: "step e s = Some s1" "particlesOk s1"
    "0 \<le> morphProgress s \<and> morphProgress s \<le> 1 \<longrightarrow> 0 \<le> morphProgress s1 \<and> morphProgress s1 \<le> 1"
    "setupInv gen s \<longrightarrow> setupInv gen s1"
    by blast
  from Cons.IH [OF s1(2)] obtain s' where
    "run s1 evs = Some s'" "particlesOk s'"
    "0 \<le> morphProgress s1 \<and> morphProgress s1 \<le> 1 \<longrightarrow> 0 \<le> morphProgress s' \<and> morphProgress s' \<le> 1"
    "setupInv gen s1 \<longrightarrow> setupInv gen s'"
    by blast
  with s1 show ?case by auto
qed

lemma initialScene_ok: "particlesOk (initialScene gen)" "setupInv gen (initialScene gen)"
  by (simp_all add: particlesOk_def setupInv_def initialScene_def length_concat o_def sum_list_triv)

section \<open>Morph progress, particles and keyboard selection\<close>

lemma animate_states:
  "animate hand s = Some s' \<Longrightarrow>
     previousState s' = previousState s \<and> currentState s' = currentState s"
  by (auto simp: animate_def Let_def updateParticlePositions_def updateRotation_frame
        updateImageVisibility_frame split: option.splits if_splits)

lemma step_previousState:
  assumes "step e s = Some s'" and "previousState s \<noteq> Zoomed"
  shows "previousState s' \<noteq> Zoomed"
proof (cases e)
  case (GestureChange g)
  then show ?thesis using assms
    by (cases g) (auto simp: zoomToNearestImage_def unzoomImage_def Let_def split: option.splits if_splits)
next
  case (KeyDown k)
  then show ?thesis using assms
    by (cases k) (auto simp: zoomSelectedImage_def unzoomImage_def Let_def split: if_splits)
next
  case (KeyUp k)
  then show ?thesis using assms by (auto simp: keyup_def unzoomImage_def split: if_splits)
next
  case (Tick hand)
  then show ?thesis using assms animate_states [of hand s s'] by simp
next
  case CloseZoomClick
  then show ?thesis using assms by (auto simp: closeZoomClick_def)
next
  case (OverlayClick b)
  then show ?thesis using assms by (auto simp: overlayClick_def split: if_splits)
next
  case (ImageLoaded i)
  then show ?thesis using assms by (auto simp: imageLoaded_def Let_def split: if_splits)
qed

lemma run_previousState:
  "run s evs = Some s' \<Longrightarrow> previousState s \<noteq> Zoomed \<Longrightarrow> previousState s' \<noteq> Zoomed"
proof (induction evs arbitrary: s)
  case Nil
  then show ?case by simp
next
  case (Cons e evs)
  then obtain s1 where s1: "step e s = Some s1" "run s1 evs = Some s'"
    by (auto split: option.splits)
  from step_previousState [OF s1(1) Cons.prems(2)] Cons.IH [OF s1(2)] show ?case by blast
qed

lemma animate_morphProgress:
  "animate hand s = Some s' \<Longrightarrow> morphProgress s' = morphStep s"
  by (cases "currentState s")
     (auto simp: animate_def Let_def updateParticlePositions_def updateRotation_frame
        updateImageVisibility_frame morphStep_def split: option.splits if_splits)

lemma step_morphProgress:
  assumes "step e s = Some s'" and "0 \<le> morphProgress s" and "morphProgress s \<le> 1"
  shows "0 \<le> morphProgress s' \<and> morphProgress s' \<le> 1"
proof (cases e)
  case (Tick hand)
  with assms(1) have "morphProgress s' = morphStep s" by (simp add: animate_morphProgress)
  with morphStep_bounds [OF assms(2,3)] show ?thesis by simp
qed (use assms in \<open>auto simp: handlers_frame clicks_frame\<close>)

lemma run_morphProgress:
  "run s evs = Some s' \<Longrightarrow> 0 \<le> morphProgress s \<Longrightarrow> morphProgress s \<le> 1 \<Longrightarrow>
     0 \<le> morphProgress s' \<and> morphProgress s' \<le> 1"
proof (induction evs arbitrary: s)
  case Nil
  then show ?case by simp
next
  case (Cons e evs)
  then obtain s1 where s1: "step e s = Some s1" "run s1 evs = Some s'"
    by (auto split: option.splits)
  from step_morphProgress [OF s1(1) Cons.prems(2,3)] Cons.IH [OF s1(2)] show ?case by blast
qed

text \<open>
  Claim C3. From any scene whose morph progress lies in \<open>[0, 1]\<close>, every sequence of
  events (gestures, keys, clicks, image loads and ticks, in any order) leaves the morph
  progress in \<open>[0, 1]\<close>; one tick sets it to the old value plus \<open>transitionSpeed\<close>
  capped at 1 in state \<open>tree\<close>, minus \<open>transitionSpeed\<close> floored at 0 in state
  \<open>exploded\<close>, and leaves it alone in state \<open>zoomed\<close>; and the sequence and the tick do
  run to their end when no particle lacks an endpoint, as after the setup.
\<close>

theorem morphProgress_clamped:
  assumes "0 \<le> morphProgress s" and "morphProgress s \<le> 1"
  shows "(\<forall>s'. run s evs = Some s' \<longrightarrow> 0 \<le> morphProgress s' \<and> morphProgress s' \<le> 1)
       \<and> (\<forall>s'. animate hand s = Some s' \<longrightarrow>
             morphProgress s' =
               (case currentState s of
                  Tree \<Rightarrow> min 1 (morphProgress s + transitionSpeed)
                | Exploded \<Rightarrow> max 0 (morphProgress s - transitionSpeed)
                | Zoomed \<Rightarrow> morphProgress s))
       \<and> (particlesOk s \<longrightarrow> (\<exists>s'. run s evs = Some s') \<and> (\<exists>s'. animate hand s = Some s'))"
proof -
  have "\<forall>s'. run s evs = Some s' \<longrightarrow> 0 \<le> morphProgress s' \<and> morphProgress s' \<le> 1"
    using run_morphProgress [OF _ assms] by blast
  moreover have "\<forall>s'. animate hand s = Some s' \<longrightarrow>
             morphProgress s' =
               (case currentState s of
                  Tree \<Rightarrow> min 1 (morphProgress s + transitionSpeed)
                | Exploded \<Rightarrow> max 0 (morphProgress s - transitionSpeed)
                | Zoomed \<Rightarrow> morphProgress s)"
    using animate_morphProgress [of hand s] by (simp add: morphStep_def)
  moreover have "particlesOk s \<longrightarrow> (\<exists>s'. run s evs = Some s') \<and> (\<exists>s'. animate hand s = Some s')"
    using run_total [where s = s and evs = evs and gen = "[]"] animate_spec [of s hand]
    by blast
  ultimately show ?thesis by blast
qed

theorem morphProgress_clamped_witness:
  "0 \<le> morphProgress explodingScene \<and> morphProgress explodingScene \<le> 1
   \<and> particlesOk explodingScene
   \<and> (\<exists>s'. run explodingScene [Tick None, GestureChange Gfist, Tick None, Tick None] = Some s'
          \<and> 0 \<le> morphProgress s' \<and> morphProgress s' \<le> 1)
   \<and> (\<exists>s'. animate None explodingScene = Some s' \<and> morphProgress s' = 0)"
proof -
  have h: "0 \<le> morphProgress explodingScene" "morphProgress explodingScene \<le> 1"
    by (simp_all add: explodingScene_def initialScene_def)
  have ok: "particlesOk explodingScene"
    by (simp add: explodingScene_def initialScene_def gen1_def particlesOk_def)
  have st: "currentState explodingScene = Exploded" "morphProgress explodingScene = 0.03"
    by (simp_all add: explodingScene_def)
  note c = morphProgress_clamped [OF h,
      of "[Tick None, GestureChange Gfist, Tick None, Tick None]" None]
  from c ok obtain s1 where
    s1: "run explodingScene [Tick None, GestureChange Gfist, Tick None, Tick None] = Some s1"
    by blast
  with c have b1: "0 \<le> morphProgress s1 \<and> morphProgress s1 \<le> 1" by blast
  from c ok obtain s2 where s2: "animate None explodingScene = Some s2" by blast
  with c have "morphProgress s2 = max 0 (morphProgress explodingScene - transitionSpeed)"
    by (simp add: st)
  then have "morphProgress s2 = 0" by (simp add: st transitionSpeed_def)
  with h ok s1 b1 s2 show ?thesis by blast
qed

text \<open>
  Claim C6. In every scene reached from the setup, a tick succeeds and leaves each
  particle, in \<open>currentPositions\<close> and in the position buffer, at
  \<open>lerp(exploded, tree, ease(morphProgress))\<close> componentwise, for the two endpoints the
  setup drew and the morph progress of that tick; \<open>lerp\<close> and the ease curve are the
  stated formulas.
\<close>

theorem particles_follow_morph:
  "(\<exists>s. run (initialScene gen) evs = Some s
      \<and> (\<exists>s'. animate hand s = Some s'
            \<and> treePositions s' = map fst gen \<and> originalPositions s' = map snd gen
            \<and> length (currentPositions s') = length gen
            \<and> (\<forall>i < length gen.
                 let tree = fst (gen ! i); exploded = snd (gen ! i);
                     t = easeInOutCubic (morphProgress s')
                 in currentPositions s' ! i =
                      \<lparr>vx = lerp (vx exploded) (vx tree) t,
                       vy = lerp (vy exploded) (vy tree) t,
                       vz = lerp (vz exploded) (vz tree) t\<rparr>
                  \<and> positions s' ! (i * 3) = lerp (vx exploded) (vx tree) t
                  \<and> positions s' ! (i * 3 + 1) = lerp (vy exploded) (vy tree) t
                  \<and> positions s' ! (i * 3 + 2) = lerp (vz exploded) (vz tree) t)))
   \<and> (\<forall>a b t. lerp a b t = a + (b - a) * t)
   \<and> (\<forall>t. easeInOutCubic t = (if t < 1 / 2 then 4 * t ^ 3 else 1 - (- 2 * t + 2) ^ 3 / 2))"
proof -
  from run_total [OF initialScene_ok(1), where evs = evs and gen = gen] initialScene_ok(2) [of gen]
  obtain s where s: "run (initialScene gen) evs = Some s" "particlesOk s" "setupInv gen s"
    by blast
  from animate_spec [OF s(2), of hand] obtain s' where
    a: "animate hand s = Some s'"
    "treePositions s' = treePositions s" "originalPositions s' = originalPositions s"
    "length (currentPositions s') = length (currentPositions s)"
    "\<forall>j < length (currentPositions s).
               currentPositions s' ! j = blend (morphProgress s') (originalPositions s ! j) (treePositions s ! j)"
    "\<forall>j < length (currentPositions s). j * 3 + 2 < length (positions s) \<longrightarrow>
               positions s' ! (j * 3) = vx (blend (morphProgress s') (originalPositions s ! j) (treePositions s ! j))
             \<and> positions s' ! (j * 3 + 1) = vy (blend (morphProgress s') (originalPositions s ! j) (treePositions s ! j))
             \<and> positions s' ! (j * 3 + 2) = vz (blend (morphProgress s') (originalPositions s ! j) (treePositions s ! j))"
    by blast
  have inv: "treePositions s = map fst gen" "originalPositions s = map snd gen"
    "length (currentPositions s) = length gen" "length (positions s) = 3 * length gen"
    using s(3) by (simp_all add: setupInv_def)
  have pt: "\<forall>i < length gen.
                 let tree = fst (gen ! i); exploded = snd (gen ! i);
                     t = easeInOutCubic (morphProgress s')
                 in currentPositions s' ! i =
                      \<lparr>vx = lerp (vx exploded) (vx tree) t,
                       vy = lerp (vy exploded) (vy tree) t,
                       vz = lerp (vz exploded) (vz tree) t\<rparr>
                  \<and> positions s' ! (i * 3) = lerp (vx exploded) (vx tree) t
                  \<and> positions s' ! (i * 3 + 1) = lerp (vy exploded) (vy tree) t
                  \<and> positions s' ! (i * 3 + 2) = lerp (vz exploded) (vz tree) t"
  proof (intro allI impI)
    fix i assume i: "i < length gen"
    then have "i * 3 + 2 < length (positions s)" by (simp add: inv)
    with a(5,6) i show "let tree = fst (gen ! i); exploded = snd (gen ! i);
                     t = easeInOutCubic (morphProgress s')
                 in currentPositions s' ! i =
                      \<lparr>vx = lerp (vx exploded) (vx tree) t,
                       vy = lerp (vy exploded) (vy tree) t,
                       vz = lerp (vz exploded) (vz tree) t\<rparr>
                  \<and> positions s' ! (i * 3) = lerp (vx exploded) (vx tree) t
                  \<and> positions s' ! (i * 3 + 1) = lerp (vy exploded) (vy tree) t
                  \<and> positions s' ! (i * 3 + 2) = lerp (vz exploded) (vz tree) t"
      by (simp add: inv blend_def Let_def)
  qed
  have e: "\<forall>t. easeInOutCubic t = (if t < 1 / 2 then 4 * t ^ 3 else 1 - (- 2 * t + 2) ^ 3 / 2)"
    by (simp add: easeInOutCubic_def power3_eq_cube algebra_simps)
  have l: "\<forall>a b t. lerp a b t = a + (b - a) * t" by (simp add: lerp_def)
  from s(1) a(1,2,3,4) pt e l show ?thesis by (simp add: inv)
qed

theorem particles_follow_morph_witness:
  "\<exists>s. run (initialScene gen1) [GestureChange Gopen, Tick None] = Some s
     \<and> morphProgress s = 0.94
     \<and> (\<exists>s'. animate None s = Some s' \<and> morphProgress s' = 0.88
          \<and> currentPositions s' ! 0 =
               \<lparr>vx = lerp 5 1 (easeInOutCubic 0.88), vy = lerp 6 2 (easeInOutCubic 0.88),
                vz = lerp 7 3 (easeInOutCubic 0.88)\<rparr>)"
  using particles_follow_morph [of gen1 "[GestureChange Gopen, Tick None]" None]
  by (auto simp: initialScene_def gen1_def animate_def updateParticlePositions_def particleLoop.simps
       nth_opt_def Let_def transitionSpeed_def updateImageVisibility_def updateRotation_def autoRotate_def)

lemma keydown_index:
  assumes "0 \<le> selectedImageIndex s"
    and "selectedImageIndex s \<le> int (length SAMPLE_IMAGES) - 1"
  shows "0 \<le> selectedImageIndex (keydown k s)
       \<and> selectedImageIndex (keydown k s) \<le> int (length SAMPLE_IMAGES) - 1"
  using assms
  by (cases k) (simp_all add: zoomSelectedImage_def unzoomImage_def Let_def SAMPLE_IMAGES_def)

lemma keyup_index: "selectedImageIndex (keyup k s) = selectedImageIndex s"
  by (simp add: keyup_def unzoomImage_def)

text \<open>
  Claim C8. Starting from an index in \<open>[0, imageCount - 1]\<close>, every sequence of key
  events runs to an end (no handler throws) with the index still in that range;
  in state \<open>exploded\<close>, select-previous at 0 leaves 0 and select-next at
  \<open>imageCount - 1\<close> leaves \<open>imageCount - 1\<close>.
\<close>

theorem keyboard_selection_clamped:
  assumes "0 \<le> selectedImageIndex s"
    and "selectedImageIndex s \<le> int (length SAMPLE_IMAGES) - 1"
    and "list_all isKeyEvent evs"
  shows "(\<exists>s'. run s evs = Some s'
            \<and> 0 \<le> selectedImageIndex s'
            \<and> selectedImageIndex s' \<le> int (length SAMPLE_IMAGES) - 1)
       \<and> (currentState s = Exploded \<and> selectedImageIndex s = 0 \<longrightarrow>
            selectedImageIndex (keydown ArrowLeft s) = 0)
       \<and> (currentState s = Exploded \<and> selectedImageIndex s = int (length SAMPLE_IMAGES) - 1 \<longrightarrow>
            selectedImageIndex (keydown ArrowRight s) = int (length SAMPLE_IMAGES) - 1)"
proof -
  have "\<exists>s'. run s evs = Some s'
            \<and> 0 \<le> selectedImageIndex s'
            \<and> selectedImageIndex s' \<le> int (length SAMPLE_IMAGES) - 1"
    using assms
  proof (induction evs arbitrary: s)
    case Nil
    then show ?case by simp
  next
    case (Cons e evs)
    from Cons.prems(3) have k: "isKeyEvent e" and ks: "list_all isKeyEvent evs" by simp_all
    have "\<exists>s1. step e s = Some s1 \<and> 0 \<le> selectedImageIndex s1
           \<and> selectedImageIndex s1 \<le> int (length SAMPLE_IMAGES) - 1"
    proof (cases e)
      case (KeyDown key)
      then show ?thesis using keydown_index [OF Cons.prems(1,2), of key] by simp
    next
      case (KeyUp key)
      then show ?thesis using Cons.prems(1,2) by (simp add: keyup_index)
    qed (use k in \<open>simp_all add: isKeyEvent_def\<close>)
    then obtain s1 where s1: "step e s = Some s1" "0 \<le> selectedImageIndex s1"
      "selectedImageIndex s1 \<le> int (length SAMPLE_IMAGES) - 1" by blast
    from Cons.IH [OF s1(2,3) ks] s1(1) show ?case by simp
  qed
  then show ?thesis by auto
qed

theorem keyboard_selection_clamped_witness:
  "(\<exists>s'. run ((initialScene gen1)\<lparr>currentState := Exploded\<rparr>)
          [KeyDown ArrowLeft, KeyDown ArrowRight, KeyDown ArrowRight, KeyDown ArrowRight,
           KeyDown ArrowRight, KeyDown ArrowRight, KeyDown ArrowRight, KeyUp KeyZ] = Some s'
        \<and> selectedImageIndex s' = 5)
   \<and> selectedImageIndex (keydown ArrowLeft ((initialScene gen1)\<lparr>currentState := Exploded\<rparr>)) = 0
   \<and> selectedImageIndex (keydown ArrowRight
         ((initialScene gen1)\<lparr>currentState := Exploded, selectedImageIndex := 5\<rparr>)) = 5"
  using keyboard_selection_clamped [of "(initialScene gen1)\<lparr>currentState := Exploded\<rparr>"
          "[KeyDown ArrowLeft, KeyDown ArrowRight, KeyDown ArrowRight, KeyDown ArrowRight,
           KeyDown ArrowRight, KeyDown ArrowRight, KeyDown ArrowRight, KeyUp KeyZ]"]
    keyboard_selection_clamped [of
          "(initialScene gen1)\<lparr>currentState := Exploded, selectedImageIndex := 5\<rparr>" "[]"]
  by (simp add: initialScene_def SAMPLE_IMAGES_def isKeyEvent_def keyup_def)

section \<open>Following a run without the particle buffers\<close>

lemma control_fields:
  "currentState (control s) = currentState s"
  "previousState (control s) = previousState s"
  "imageSprites (control s) = imageSprites s"
  "selectedImageIndex (control s) = selectedImageIndex s"
  "zoomedSprite (control s) = zoomedSprite s"
  "morphProgress (control s) = morphProgress s"
  by (simp_all add: control_def)

lemma updateImageVisibility_control:
  "updateImageVisibility (control s) = control (updateImageVisibility s)"
  by (simp add: updateImageVisibility_def control_def Let_def split: prod.splits)

lemma updateRotation_control:
  "updateRotation h (control s) = control (updateRotation h s)"
  by (cases s; cases h) (simp_all add: updateRotation_def control_def Let_def)

lemma handlers_control:
  "handleGestureChange g (control s) = control (handleGestureChange g s)"
  "keydown k (control s) = control (keydown k s)"
  "keyup k (control s) = control (keyup k s)"
  "closeZoomClick (control s) = control (closeZoomClick s)"
  "overlayClick b (control s) = control (overlayClick b s)"
  "imageLoaded i (control s) = control (imageLoaded i s)"
  by (cases g; cases k;
      simp add: control_def zoomToNearestImage_def zoomSelectedImage_def unzoomImage_def
        keyup_def closeZoomClick_def overlayClick_def imageLoaded_def Let_def
        split: option.splits)+

lemma animate_control:
  assumes "particlesOk s"
  shows "\<exists>s'. animate hand s = Some s' \<and> animate hand (control s) = Some (control s')"
proof -
  define s2 where "s2 = (let s1 = s\<lparr>time := time s + 0.016\<rparr> in
          (if currentState s1 = Tree
                then s1\<lparr>morphProgress := min 1 (morphProgress s1 + transitionSpeed)\<rparr>
                else if currentState s1 = Exploded
                then s1\<lparr>morphProgress := max 0 (morphProgress s1 - transitionSpeed)\<rparr>
                else s1))"
  have an: "animate hand s = (case updateParticlePositions s2 of
           None \<Rightarrow> None
         | Some s3 \<Rightarrow> Some (updateRotation hand (updateImageVisibility s3)))"
    by (simp add: animate_def s2_def Let_def)
  have anc: "animate hand (control s) = (case updateParticlePositions (control s2) of
           None \<Rightarrow> None
         | Some s3 \<Rightarrow> Some (updateRotation hand (updateImageVisibility s3)))"
    by (cases s) (simp add: animate_def s2_def Let_def control_def)
  have ok2: "particlesOk s2" using assms by (simp add: particlesOk_def s2_def Let_def)
  from updateParticlePositions_spec [OF ok2] obtain cur buf where
    u: "updateParticlePositions s2 = Some (s2\<lparr>currentPositions := cur, positions := buf\<rparr>)"
    by blast
  have uc: "updateParticlePositions (control s2) =
            Some (control (s2\<lparr>currentPositions := cur, positions := buf\<rparr>))"
    by (simp add: updateParticlePositions_def control_def particleLoop.simps)
  show ?thesis
    by (simp add: an anc u uc updateImageVisibility_control updateRotation_control)
qed

lemma step_control:
  assumes "particlesOk s"
  shows "\<exists>s'. step e s = Some s' \<and> step e (control s) = Some (control s')"
proof (cases e)
  case (Tick hand)
  then show ?thesis using animate_control [OF assms, of hand] by simp
qed (simp_all add: handlers_control)

lemma run_control:
  assumes "particlesOk s"
  shows "\<exists>s'. run s evs = Some s' \<and> run (control s) evs = Some (control s')"
  using assms
proof (induction evs arbitrary: s)
  case Nil
  then show ?case by simp
next
  case (Cons e evs)
  from step_control [OF Cons.prems, of e] obtain s1 where
    s1: "step e s = Some s1" "step e (control s) = Some (control s1)" by blast
  from step_total [OF Cons.prems, of e "[]"] s1(1) have "particlesOk s1" by auto
  from Cons.IH [OF this] s1 show ?case by simp
qed

lemma zoomPath_control:
  "\<exists>c. run (control (initialScene gen)) zoomPath = Some c
     \<and> currentState c = Exploded \<and> previousState c = Exploded
     \<and> length (imageSprites c) = 1 \<and> isSelected (imageSprites c ! 0)
     \<and> 0.3 < opacity (imageSprites c ! 0) \<and> selectedImageIndex c = 0"
  by (simp add: zoomPath_def control_def initialScene_def imageLoaded_def SAMPLE_IMAGES_def
      animate_def updateParticlePositions_def particleLoop.simps Let_def transitionSpeed_def
      updateImageVisibility_def updateRotation_def autoRotate_def autoRotateSpeed_def gtMaxZ_def
      lerp_def easeInOutCubic_def)

lemma run_append:
  "run s (xs @ ys) = (case run s xs of None \<Rightarrow> None | Some s1 \<Rightarrow> run s1 ys)"
  by (induction xs arbitrary: s) (auto split: option.splits)

section \<open>Zoom requests and the selected image\<close>

lemma selectedLoop_filter:
  "selectedLoop i sps best =
     (case filter (\<lambda>j. isSelected (sps ! j)) [0..<length sps] of
        [] \<Rightarrow> best
      | j # js \<Rightarrow> Some (i + last (j # js)))"
proof (induction sps arbitrary: i best)
  case Nil
  then show ?case by simp
next
  case (Cons sp sps)
  have upt: "[0..<length (sp # sps)] = 0 # map Suc [0..<length sps]"
    by (simp add: upt_conv_Cons map_Suc_upt del: upt_Suc)
  have f: "filter (\<lambda>j. isSelected ((sp # sps) ! j)) (map Suc [0..<length sps]) =
           map Suc (filter (\<lambda>j. isSelected (sps ! j)) [0..<length sps])"
    by (simp add: filter_map o_def)
  show ?case
  proof (cases "filter (\<lambda>j. isSelected (sps ! j)) [0..<length sps]")
    case Nil
    then show ?thesis
      unfolding upt by (simp add: Cons.IH f del: upt_Suc)
  next
    case (Cons j js)
    then show ?thesis
      unfolding upt by (simp add: Cons.IH f last_map del: upt_Suc)
  qed
qed

lemma selectedSprite_bound:
  "selectedSprite s = Some b \<Longrightarrow> b < length (imageSprites s)"
proof -
  assume a: "selectedSprite s = Some b"
  show ?thesis
  proof (cases "filter (\<lambda>j. isSelected (imageSprites s ! j)) [0..<length (imageSprites s)]")
    case Nil
    with a show ?thesis by (auto simp: selectedSprite_def split: if_splits)
  next
    case (Cons j js)
    then have "last (j # js) \<in> set (filter (\<lambda>j. isSelected (imageSprites s ! j)) [0..<length (imageSprites s)])"
      by (metis last_in_set list.distinct(1))
    then have "last (j # js) < length (imageSprites s)"
      by (simp del: last.simps)
    moreover from a Cons have "b = last (j # js)"
      by (simp add: selectedSprite_def del: last.simps)
    ultimately show ?thesis by simp
  qed
qed

lemma zoomToNearestImage_spec:
  "zoomToNearestImage s =
     (if currentState s \<noteq> Zoomed
         \<and> (\<exists>b. selectedSprite s = Some b \<and> 0.3 < opacity (imageSprites s ! b))
      then s\<lparr>previousState := currentState s, currentState := Zoomed,
             zoomedSprite := selectedSprite s\<rparr>
      else s)"
proof (cases "imageSprites s = []")
  case True
  then show ?thesis by (auto simp: zoomToNearestImage_def selectedSprite_def)
next
  case False
  show ?thesis
  proof (cases "filter (\<lambda>j. isSelected (imageSprites s ! j)) [0..<length (imageSprites s)]")
    case Nil
    then show ?thesis using False
      by (auto simp: zoomToNearestImage_def selectedSprite_def selectedLoop_filter Let_def)
  next
    case (Cons j js)
    then show ?thesis using False
      by (auto simp: zoomToNearestImage_def selectedSprite_def selectedLoop_filter Let_def)
  qed
qed

text \<open>
  A scene that is zoomed from \<open>exploded\<close> onto a visible, selected sprite is reached
  from every setup.
\<close>

lemma zoomed_scene_reachable:
  "\<exists>s. run (initialScene gen) (zoomPath @ [GestureChange Gok]) = Some s
     \<and> currentState s = Zoomed \<and> previousState s = Exploded
     \<and> selectedSprite s = Some 0 \<and> 0.3 < opacity (imageSprites s ! 0)"
proof -
  let ?evs = "zoomPath @ [GestureChange Gok]"
  from run_control [OF initialScene_ok(1), of gen ?evs] obtain s where
    s: "run (initialScene gen) ?evs = Some s"
    and cs: "run (control (initialScene gen)) ?evs = Some (control s)" by blast
  from zoomPath_control [of gen] obtain c where
    c: "run (control (initialScene gen)) zoomPath = Some c"
    "currentState c = Exploded" "previousState c = Exploded"
    "length (imageSprites c) = 1" "isSelected (imageSprites c ! 0)"
    "0.3 < opacity (imageSprites c ! 0)" "selectedImageIndex c = 0"
    by blast
  from c(4) obtain sp where sp: "imageSprites c = [sp]"
    by (cases "imageSprites c") simp_all
  from cs c have "control s = handleGestureChange Gok c"
    by (simp add: run_append)
  also have "\<dots> = c\<lparr>previousState := Exploded, currentState := Zoomed, zoomedSprite := Some 0\<rparr>"
    using c(2-) sp by (simp add: zoomToNearestImage_def Let_def)
  finally have e: "control s = c\<lparr>previousState := Exploded, currentState := Zoomed, zoomedSprite := Some 0\<rparr>" .
  have f: "currentState (control s) = Zoomed" "previousState (control s) = Exploded"
    "imageSprites (control s) = [sp]" "selectedImageIndex (control s) = 0"
    by (simp_all add: e sp c)
  then have g: "currentState s = Zoomed" "previousState s = Exploded"
    "imageSprites s = [sp]" "selectedImageIndex s = 0"
    by (simp_all add: control_fields)
  have "selectedSprite s = Some 0" using c(5) sp by (simp add: selectedSprite_def g)
  with s g c(6) sp show ?thesis by simp
qed

text \<open>
  Between two \<open>ok\<close> events the tracker delivers another label, and each of them
  leaves the zoomed state: this is why a delivered \<open>ok\<close> never finds the scene zoomed.
\<close>

lemma gesture_leaves_zoomed:
  assumes "previousState s \<noteq> Zoomed" and "g \<noteq> Gok"
  shows "currentState (handleGestureChange g s) \<noteq> Zoomed"
  using assms by (cases g) (simp_all add: unzoomImage_def)

lemma step_zoomed_after_ok:
  assumes "step e s = Some s1" and "deliverable l (e # es)"
    and "previousState s \<noteq> Zoomed" and "currentState s = Zoomed \<longrightarrow> l = Gok"
  shows "\<exists>l1. deliverable l1 es \<and> (currentState s1 = Zoomed \<longrightarrow> l1 = Gok)"
proof (cases e)
  case (GestureChange g)
  with assms(2) have d: "deliverable g es" by simp
  from GestureChange assms(1) have s1: "s1 = handleGestureChange g s" by simp
  have "currentState s1 = Zoomed \<longrightarrow> g = Gok"
    using gesture_leaves_zoomed [OF assms(3), of g] by (auto simp: s1)
  with d show ?thesis by blast
next
  case (KeyDown k)
  with assms(2) show ?thesis by simp
next
  case (KeyUp k)
  with assms(2) show ?thesis by simp
next
  case (Tick hand)
  with assms(1) have "currentState s1 = currentState s" by (simp add: animate_states)
  with Tick assms(2,4) show ?thesis by auto
next
  case CloseZoomClick
  with assms(1) have "currentState s1 = Exploded" by (auto simp: closeZoomClick_def)
  with CloseZoomClick assms(2) show ?thesis by auto
next
  case (OverlayClick b)
  with assms(1) have "currentState s1 = Exploded \<or> currentState s1 = currentState s"
    by (auto simp: overlayClick_def)
  with OverlayClick assms(2,4) show ?thesis by auto
next
  case (ImageLoaded i)
  with assms(1) have "currentState s1 = currentState s"
    by (auto simp: imageLoaded_def Let_def)
  with ImageLoaded assms(2,4) show ?thesis by auto
qed

lemma ok_delivered_not_zoomed:
  "run s evs = Some s' \<Longrightarrow> deliverable l (evs @ [GestureChange Gok]) \<Longrightarrow>
     previousState s \<noteq> Zoomed \<Longrightarrow> (currentState s = Zoomed \<longrightarrow> l = Gok) \<Longrightarrow>
     currentState s' \<noteq> Zoomed"
proof (induction evs arbitrary: s l)
  case Nil
  then show ?case by auto
next
  case (Cons e evs)
  from Cons.prems(1) obtain s1 where s1: "step e s = Some s1" "run s1 evs = Some s'"
    by (auto split: option.splits)
  from Cons.prems(2) have d: "deliverable l (e # (evs @ [GestureChange Gok]))" by simp
  from step_zoomed_after_ok [OF s1(1) d Cons.prems(3,4)] obtain l1 where
    l1: "deliverable l1 (evs @ [GestureChange Gok])" "currentState s1 = Zoomed \<longrightarrow> l1 = Gok"
    by blast
  from step_previousState [OF s1(1) Cons.prems(3)] have "previousState s1 \<noteq> Zoomed" .
  from Cons.IH [OF s1(2) l1(1) this l1(2)] show ?case .
qed

text \<open>
  Claim C4. Let an \<open>ok\<close> event arrive after any sequence of events that the tracked
  hand, the ticks, the clicks and the image loads can deliver from the initial scene
  (\<open>deliverable\<close>, whatever label \<open>g0\<close> the tracker held before the first event).
  The scene it finds is not zoomed, and the event makes the transition to \<open>zoomed\<close>
  (recording the current state as \<open>previousState\<close> and the selected sprite as the
  zoomed one) if and only if (a) the current or the previous state is \<open>exploded\<close> and
  (b) the selected sprite exists and is more than 0.3 opaque; otherwise the scene is
  returned as it was, no state variable changed.
\<close>

theorem ok_event_zoom:
  assumes "deliverable g0 (evs @ [GestureChange Gok])"
  shows "\<exists>s. run (initialScene gen) evs = Some s
     \<and> currentState s \<noteq> Zoomed
     \<and> handleGestureChange Gok s =
         (if (currentState s = Exploded \<or> previousState s = Exploded)
             \<and> (\<exists>b. selectedSprite s = Some b \<and> b < length (imageSprites s)
                    \<and> 0.3 < opacity (imageSprites s ! b))
          then s\<lparr>previousState := currentState s, currentState := Zoomed,
                 zoomedSprite := selectedSprite s\<rparr>
          else s)
     \<and> (currentState (handleGestureChange Gok s) = Zoomed) =
         ((currentState s = Exploded \<or> previousState s = Exploded)
          \<and> (\<exists>b. selectedSprite s = Some b \<and> b < length (imageSprites s)
                 \<and> 0.3 < opacity (imageSprites s ! b)))"
proof -
  from run_total [OF initialScene_ok(1), where evs = evs and gen = gen] obtain s where
    s: "run (initialScene gen) evs = Some s" by blast
  have p0: "previousState (initialScene gen) \<noteq> Zoomed"
    and c0: "currentState (initialScene gen) = Zoomed \<longrightarrow> g0 = Gok"
    by (simp_all add: initialScene_def)
  from ok_delivered_not_zoomed [OF s assms p0 c0] have nz: "currentState s \<noteq> Zoomed" .
  have eq: "handleGestureChange Gok s =
         (if (currentState s = Exploded \<or> previousState s = Exploded)
             \<and> (\<exists>b. selectedSprite s = Some b \<and> b < length (imageSprites s)
                    \<and> 0.3 < opacity (imageSprites s ! b))
          then s\<lparr>previousState := currentState s, currentState := Zoomed,
                 zoomedSprite := selectedSprite s\<rparr>
          else s)"
    using nz selectedSprite_bound [of s] by (auto simp: zoomToNearestImage_spec)
  have iff: "(currentState (handleGestureChange Gok s) = Zoomed) =
         ((currentState s = Exploded \<or> previousState s = Exploded)
          \<and> (\<exists>b. selectedSprite s = Some b \<and> b < length (imageSprites s)
                 \<and> 0.3 < opacity (imageSprites s ! b)))"
    unfolding eq using nz by simp
  from s nz eq iff show ?thesis by blast
qed

theorem ok_event_zoom_witness:
  "deliverable Gnone (zoomPath @ [GestureChange Gok])
   \<and> (\<exists>s. run (initialScene gen1) zoomPath = Some s
          \<and> currentState s = Exploded
          \<and> currentState (handleGestureChange Gok s) = Zoomed
          \<and> previousState (handleGestureChange Gok s) = Exploded)
   \<and> deliverable Gnone ([GestureChange Gopen] @ [GestureChange Gok])
   \<and> (\<exists>s. run (initialScene gen1) [GestureChange Gopen] = Some s
          \<and> currentState s = Exploded \<and> selectedSprite s = None
          \<and> handleGestureChange Gok s = s)"
proof -
  have d1: "deliverable Gnone (zoomPath @ [GestureChange Gok])"
    by (simp add: zoomPath_def)
  have d2: "deliverable Gnone ([GestureChange Gopen] @ [GestureChange Gok])"
    by simp
  from ok_event_zoom [OF d1, of gen1] obtain s where
    s: "run (initialScene gen1) zoomPath = Some s" "currentState s \<noteq> Zoomed"
    "handleGestureChange Gok s =
         (if (currentState s = Exploded \<or> previousState s = Exploded)
             \<and> (\<exists>b. selectedSprite s = Some b \<and> b < length (imageSprites s)
                    \<and> 0.3 < opacity (imageSprites s ! b))
          then s\<lparr>previousState := currentState s, currentState := Zoomed,
                 zoomedSprite := selectedSprite s\<rparr>
          else s)"
    by blast
  from zoomed_scene_reachable [of gen1] obtain s2 where
    s2: "run (initialScene gen1) (zoomPath @ [GestureChange Gok]) = Some s2"
    "currentState s2 = Zoomed" "previousState s2 = Exploded"
    by blast
  from s2(1) s(1) have e2: "s2 = handleGestureChange Gok s" by (simp add: run_append)
  have z: "currentState (handleGestureChange Gok s) = Zoomed"
    "previousState (handleGestureChange Gok s) = Exploded"
    using s2(2,3) by (simp_all only: e2)
  define cond where "cond \<longleftrightarrow> (currentState s = Exploded \<or> previousState s = Exploded)
             \<and> (\<exists>b. selectedSprite s = Some b \<and> b < length (imageSprites s)
                    \<and> 0.3 < opacity (imageSprites s ! b))"
  from s(3) have h: "handleGestureChange Gok s =
         (if cond then s\<lparr>previousState := currentState s, currentState := Zoomed,
                 zoomedSprite := selectedSprite s\<rparr> else s)"
    unfolding cond_def .
  have "currentState s = Exploded"
  proof (cases cond)
    case True
    then have "previousState (handleGestureChange Gok s) = currentState s"
      by (simp only: h if_True) simp
    with z(2) show ?thesis by simp
  next
    case False
    then have "handleGestureChange Gok s = s"
      by (simp only: h if_False)
    with z(1) s(2) show ?thesis by simp
  qed
  with s(1) z have first: "\<exists>s. run (initialScene gen1) zoomPath = Some s
          \<and> currentState s = Exploded
          \<and> currentState (handleGestureChange Gok s) = Zoomed
          \<and> previousState (handleGestureChange Gok s) = Exploded"
    by (intro exI [of _ s]) simp
  from ok_event_zoom [OF d2, of gen1]
  have second: "\<exists>s. run (initialScene gen1) [GestureChange Gopen] = Some s
          \<and> currentState s = Exploded \<and> selectedSprite s = None
          \<and> handleGestureChange Gok s = s"
    by (simp add: initialScene_def selectedSprite_def zoomToNearestImage_def)
  from d1 first d2 second show ?thesis by blast
qed

lemma frontLoop_snd_Cons:
  "snd (frontLoop st rot ep i (sp # sps) (maxZ, front)) =
     snd (frontLoop st rot ep (i + 1) sps
       (case baseAngle sp of
          None \<Rightarrow> (maxZ, front)
        | Some angle \<Rightarrow>
            if gtMaxZ (sin (angle + rot) * lerp 0.5 8 (easeInOutCubic ep)) maxZ \<and> st = Exploded
            then (Some (sin (angle + rot) * lerp 0.5 8 (easeInOutCubic ep)), i)
            else (maxZ, front)))"
  by (simp add: Let_def split: option.splits prod.splits)

lemma frontLoop_None:
  "fst (snd (frontLoop st rot ep i sps (maxZ, front))) = None \<Longrightarrow>
     maxZ = None \<and> snd (snd (frontLoop st rot ep i sps (maxZ, front))) = front"
proof (induction sps arbitrary: i maxZ front)
  case Nil
  then show ?case by simp
next
  case (Cons sp sps)
  show ?case
  proof (cases "baseAngle sp")
    case None
    have e: "snd (frontLoop st rot ep i (sp # sps) (maxZ, front)) =
             snd (frontLoop st rot ep (i + 1) sps (maxZ, front))"
      by (simp only: frontLoop_snd_Cons None option.case)
    from Cons.prems have "fst (snd (frontLoop st rot ep (i + 1) sps (maxZ, front))) = None"
      unfolding e .
    from Cons.IH [OF this] show ?thesis unfolding e .
  next
    case (Some angle)
    let ?z = "sin (angle + rot) * lerp 0.5 8 (easeInOutCubic ep)"
    show ?thesis
    proof (cases "gtMaxZ ?z maxZ \<and> st = Exploded")
      case True
      have e: "snd (frontLoop st rot ep i (sp # sps) (maxZ, front)) =
               snd (frontLoop st rot ep (i + 1) sps (Some ?z, i))"
        using True by (simp add: frontLoop_snd_Cons Some del: frontLoop.simps)
      from Cons.prems have "fst (snd (frontLoop st rot ep (i + 1) sps (Some ?z, i))) = None"
        unfolding e .
      from Cons.IH [OF this] show ?thesis by simp
    next
      case False
      have e: "snd (frontLoop st rot ep i (sp # sps) (maxZ, front)) =
               snd (frontLoop st rot ep (i + 1) sps (maxZ, front))"
        using False by (auto simp add: frontLoop_snd_Cons Some simp del: frontLoop.simps)
      from Cons.prems have "fst (snd (frontLoop st rot ep (i + 1) sps (maxZ, front))) = None"
        unfolding e .
      from Cons.IH [OF this] show ?thesis unfolding e .
    qed
  qed
qed

lemma frontLoop_not_exploded:
  "st \<noteq> Exploded \<Longrightarrow> snd (frontLoop st rot ep i sps (maxZ, front)) = (maxZ, front)"
proof (induction sps arbitrary: i)
  case Nil
  then show ?case by simp
next
  case (Cons sp sps)
  then show ?case
    by (cases "baseAngle sp") (simp_all only: frontLoop_snd_Cons option.case, simp_all)
qed

text \<open>
  Claim C7, amended. On a tick in which no orbit slot satisfies the camera-facing
  comparison, \<open>selectedImageIndex\<close> keeps its value when the state is not \<open>exploded\<close>,
  and is set to 0 when the state is \<open>exploded\<close>. No slot satisfies the comparison when
  there is no sprite, and none does in a state other than \<open>exploded\<close>.
\<close>

theorem selection_without_facing_slot:
  "(noSlotFacing s \<longrightarrow>
      selectedImageIndex (updateImageVisibility s) =
        (if currentState s = Exploded then 0 else selectedImageIndex s))
   \<and> (imageSprites s = [] \<longrightarrow> noSlotFacing s)
   \<and> (currentState s \<noteq> Exploded \<longrightarrow>
        noSlotFacing s \<and> selectedImageIndex (updateImageVisibility s) = selectedImageIndex s)"
proof -
  have a: "noSlotFacing s \<Longrightarrow> selectedImageIndex (updateImageVisibility s) =
        (if currentState s = Exploded then 0 else selectedImageIndex s)"
  proof -
    assume n: "noSlotFacing s"
    obtain sps maxZ front where
      f: "frontLoop (currentState s) (treeRotation s) (1 - morphProgress s) 0
            (imageSprites s) (None, 0) = (sps, (maxZ, front))"
      by (metis prod.exhaust)
    from n f frontLoop_None [of "currentState s" "treeRotation s" "1 - morphProgress s" 0
        "imageSprites s" None 0]
    have "front = 0" by (simp add: noSlotFacing_def)
    then show ?thesis by (simp add: updateImageVisibility_def Let_def f)
  qed
  have b: "imageSprites s = [] \<Longrightarrow> noSlotFacing s" by (simp add: noSlotFacing_def)
  have c: "currentState s \<noteq> Exploded \<Longrightarrow> noSlotFacing s"
    by (simp add: noSlotFacing_def frontLoop_not_exploded)
  from a b c show ?thesis by auto
qed

text \<open>
  The index is not retained in state \<open>exploded\<close>: with no image loaded, the explode
  key and the right arrow lead to index 1, and the next pass over the (empty) orbit
  sets it to 0.
\<close>

theorem selection_without_facing_slot_counterexample:
  "run (initialScene gen1) [KeyDown KeyO, KeyDown ArrowRight] = Some emptyOrbitScene
   \<and> imageSprites emptyOrbitScene = []
   \<and> noSlotFacing emptyOrbitScene
   \<and> selectedImageIndex emptyOrbitScene = 1
   \<and> selectedImageIndex (updateImageVisibility emptyOrbitScene) = 0"
  by (simp add: emptyOrbitScene_def initialScene_def SAMPLE_IMAGES_def noSlotFacing_def
      updateImageVisibility_def)

theorem selection_without_facing_slot_witness:
  "noSlotFacing emptyOrbitScene
   \<and> selectedImageIndex (updateImageVisibility emptyOrbitScene) = 0
   \<and> noSlotFacing (zoomedScene\<lparr>selectedImageIndex := 3\<rparr>)
   \<and> selectedImageIndex (updateImageVisibility (zoomedScene\<lparr>selectedImageIndex := 3\<rparr>)) = 3"
  using selection_without_facing_slot [of emptyOrbitScene]
    selection_without_facing_slot [of "zoomedScene\<lparr>selectedImageIndex := 3\<rparr>"]
  by (simp add: emptyOrbitScene_def zoomedScene_def initialScene_def)

section \<open>Closing the zoom overlay\<close>

text \<open>
  Claim C10. A click on the close button, or on the overlay itself, sets the state to
  \<open>exploded\<close> whatever \<open>previousState\<close> is; and a scene is reachable (an image loads, the
  hand opens, fourteen ticks pass, the hand closes and then makes the OK sign) that is
  zoomed with \<open>previousState = tree\<close>, where a close click leaves \<open>exploded\<close> while the
  \<open>none\<close> gesture and the release of Z restore \<open>tree\<close>.
\<close>

theorem close_click_forces_exploded:
  "(\<forall>s. closeZoomClick s = s\<lparr>currentState := Exploded\<rparr>
       \<and> overlayClick True s = s\<lparr>currentState := Exploded\<rparr>)
   \<and> (\<exists>s. run (initialScene gen) (zoomPath @ [GestureChange Gfist, GestureChange Gok]) = Some s
         \<and> currentState s = Zoomed \<and> previousState s = Tree
         \<and> currentState (closeZoomClick s) = Exploded
         \<and> currentState (overlayClick True s) = Exploded
         \<and> currentState (handleGestureChange Gnone s) = Tree
         \<and> currentState (keyup KeyZ s) = Tree)"
proof -
  let ?evs = "zoomPath @ [GestureChange Gfist, GestureChange Gok]"
  from run_control [OF initialScene_ok(1), of gen ?evs] obtain s where
    s: "run (initialScene gen) ?evs = Some s"
    and cs: "run (control (initialScene gen)) ?evs = Some (control s)" by blast
  from zoomPath_control [of gen] obtain c where
    c: "run (control (initialScene gen)) zoomPath = Some c"
    "currentState c = Exploded" "previousState c = Exploded"
    "length (imageSprites c) = 1" "isSelected (imageSprites c ! 0)"
    "0.3 < opacity (imageSprites c ! 0)" "selectedImageIndex c = 0"
    by blast
  from c(4) obtain sp where sp: "imageSprites c = [sp]"
    by (cases "imageSprites c") simp_all
  from cs c have "control s = handleGestureChange Gok (handleGestureChange Gfist c)"
    by (simp add: run_append)
  also have "\<dots> = c\<lparr>currentState := Zoomed, previousState := Tree, zoomedSprite := Some 0\<rparr>"
    using c(2-) sp by (cases c) (simp add: zoomToNearestImage_def Let_def)
  finally have "control s = c\<lparr>currentState := Zoomed, previousState := Tree, zoomedSprite := Some 0\<rparr>" .
  then have "currentState (control s) = Zoomed" "previousState (control s) = Tree"
    by simp_all
  then have "currentState s = Zoomed" "previousState s = Tree"
    by (simp_all add: control_fields)
  with s show ?thesis
    by (auto simp: closeZoomClick_def overlayClick_def keyup_def unzoomImage_def)
qed

theorem close_click_forces_exploded_witness:
  "\<exists>s. run (initialScene gen1) (zoomPath @ [GestureChange Gfist, GestureChange Gok]) = Some s
     \<and> currentState s = Zoomed \<and> previousState s = Tree
     \<and> currentState (closeZoomClick s) = Exploded
     \<and> currentState (handleGestureChange Gnone s) = Tree"
  using close_click_forces_exploded [of gen1] by blast

section \<open>The previous state is never zoomed\<close>

text \<open>
  Claim C9. Every sequence of events from the initial scene runs to an end in a scene
  whose \<open>previousState\<close> is \<open>tree\<close> or \<open>exploded\<close>, never \<open>zoomed\<close>; so the two unzoom
  paths that restore \<open>previousState\<close> (the \<open>none\<close> gesture and the release of Z) leave
  a state that is not \<open>zoomed\<close>.
\<close>

theorem previousState_never_zoomed:
  "\<exists>s. run (initialScene gen) evs = Some s
     \<and> (previousState s = Tree \<or> previousState s = Exploded)
     \<and> currentState (handleGestureChange Gnone s) \<noteq> Zoomed
     \<and> currentState (keyup KeyZ s) \<noteq> Zoomed
     \<and> (currentState s = Zoomed \<longrightarrow>
          currentState (handleGestureChange Gnone s) = previousState s
        \<and> currentState (keyup KeyZ s) = previousState s)"
proof -
  from run_total [OF initialScene_ok(1), where evs = evs and gen = gen] obtain s where
    s: "run (initialScene gen) evs = Some s" by blast
  have "previousState (initialScene gen) \<noteq> Zoomed" by (simp add: initialScene_def)
  from run_previousState [OF s this] have p: "previousState s \<noteq> Zoomed" .
  then have "previousState s = Tree \<or> previousState s = Exploded"
    by (cases "previousState s") simp_all
  with s p show ?thesis by (auto simp: keyup_def unzoomImage_def)
qed

theorem previousState_never_zoomed_witness:
  "\<exists>s. run (initialScene gen1) (zoomPath @ [GestureChange Gok]) = Some s
     \<and> currentState s = Zoomed \<and> previousState s = Exploded
     \<and> currentState (handleGestureChange Gnone s) = Exploded
     \<and> currentState (keyup KeyZ s) = Exploded"
proof -
  from zoomed_scene_reachable [of gen1] obtain s where
    s: "run (initialScene gen1) (zoomPath @ [GestureChange Gok]) = Some s"
    "currentState s = Zoomed" "previousState s = Exploded"
    by blast
  from previousState_never_zoomed [of gen1 "zoomPath @ [GestureChange Gok]"] obtain s' where
    s': "run (initialScene gen1) (zoomPath @ [GestureChange Gok]) = Some s'"
    "currentState s' = Zoomed \<longrightarrow>
          currentState (handleGestureChange Gnone s') = previousState s'
        \<and> currentState (keyup KeyZ s') = previousState s'"
    by blast
  from s(1) s'(1) have "s' = s" by simp
  with s(2,3) s'(2) have "currentState (handleGestureChange Gnone s) = Exploded"
    and "currentState (keyup KeyZ s) = Exploded"
    by simp_all
  with s show ?thesis by (intro exI [of _ s]) simp
qed

end
